theory Spec2Isabelle
  imports Complex_Main
begin

section \<open>Style values, runs and the styled buffer (class TextModel, src/main.js)\<close>

text \<open>
  The style fields of a run are ordinary JavaScript properties.  \<open>insertAt\<close> stores
  booleans in \<open>bold\<close>, \<open>italic\<close>, \<open>underline\<close> and a truthy value (a colour string) in
  \<open>color\<close>; \<open>applyStyle\<close> stores \<open>!field\<close> (a boolean, also for \<open>color\<close>) or the
  caller's \<open>value\<close>.  The values are therefore modelled as a small datatype of the
  JavaScript values that occur: \<open>undefined\<close> (an absent property of the \<open>style\<close>
  argument), booleans and strings.  On these, \<open>===\<close> is equality.
\<close>

datatype jsval = JUndefined | JBool bool | JStr string

fun truthy :: "jsval \<Rightarrow> bool" where
  "truthy JUndefined = False"
| "truthy (JBool b) = b"
| "truthy (JStr s) = (s \<noteq> [])"

record style =
  bold :: jsval
  italic :: jsval
  underline :: jsval
  color :: jsval

record run = style +
  r_text :: string

datatype styleProp = Bold | Italic | Underline | Color

text \<open>\<open>run[prop]\<close> and \<open>run[prop] = v\<close>.\<close>

fun getProp :: "styleProp \<Rightarrow> run \<Rightarrow> jsval" where
  "getProp Bold r = bold r"
| "getProp Italic r = italic r"
| "getProp Underline r = underline r"
| "getProp Color r = color r"

fun setProp :: "styleProp \<Rightarrow> jsval \<Rightarrow> run \<Rightarrow> run" where
  "setProp Bold v r = r\<lparr>bold := v\<rparr>"
| "setProp Italic v r = r\<lparr>italic := v\<rparr>"
| "setProp Underline v r = r\<lparr>underline := v\<rparr>"
| "setProp Color v r = r\<lparr>color := v\<rparr>"

text \<open>
  \<open>m_text\<close> is the field \<open>text\<close> of the class (the cached flattened text that readers
  and the layout use), \<open>version\<close> is \<open>_version\<close>.
\<close>

record TextModel =
  runs :: "run list"
  m_text :: string
  version :: nat

datatype jserror = TypeError

definition defaultRun :: "string \<Rightarrow> run" where
  "defaultRun s = \<lparr>bold = JBool False, italic = JBool False, underline = JBool False,
                   color = JStr ''#111'', r_text = s\<rparr>"

text \<open>\<open>new TextModel(text)\<close>.\<close>

definition newTextModel :: "string \<Rightarrow> TextModel" where
  "newTextModel t = \<lparr>runs = [defaultRun t], m_text = t, version = 0\<rparr>"

text \<open>\<open>_rebuildText()\<close>: \<open>this.text = this.runs.map(r=>r.text).join(""); this._version++\<close>.\<close>

definition rebuildText :: "TextModel \<Rightarrow> TextModel" where
  "rebuildText m = m\<lparr>m_text := concat (map r_text (runs m)), version := version m + 1\<rparr>"

definition setText :: "string \<Rightarrow> TextModel \<Rightarrow> TextModel" where
  "setText s m = rebuildText (m\<lparr>runs := [defaultRun s]\<rparr>)"

text \<open>
  \<open>_locate(index)\<close>.  The loop walks the runs with the accumulated length \<open>acc\<close>; it
  returns at the first run with \<open>index <= acc + len\<close>.  There \<open>acc \<le> index\<close> (lemma
  \<open>locate_loop_Some\<close> below), so \<open>index - acc\<close> is the same number on \<open>nat\<close>.  When the
  loop ends without returning, the result is \<open>runs.length - 1\<close> (which is \<open>-1\<close> for an
  empty array, hence \<open>int\<close>) and the length of the last run's text, or 0.
\<close>

fun locate_loop :: "run list \<Rightarrow> nat \<Rightarrow> nat \<Rightarrow> nat \<Rightarrow> (nat \<times> nat) option" where
  "locate_loop [] index i acc = None"
| "locate_loop (r # rs) index i acc =
     (let len = length (r_text r) in
      if index \<le> acc + len then Some (i, index - acc)
      else locate_loop rs index (i + 1) (acc + len))"

definition locate :: "run list \<Rightarrow> nat \<Rightarrow> int \<times> nat" where
  "locate rs index =
     (case locate_loop rs index 0 0 of
        Some (ri, off) \<Rightarrow> (int ri, off)
      | None \<Rightarrow> (int (length rs) - 1, if rs = [] then 0 else length (r_text (last rs))))"

text \<open>\<open>Math.max(0, Math.min(index, this.text.length))\<close>.\<close>

definition clampIndex :: "TextModel \<Rightarrow> int \<Rightarrow> nat" where
  "clampIndex m index = nat (max 0 (min index (int (length (m_text m)))))"

text \<open>
  \<open>_splitAt(index)\<close> returns the index of the run that starts at \<open>index\<close> and may
  replace one run by its two halves (\<open>this.runs.splice(ri, 1, left, right)\<close>).
  \<open>this.runs[ri]\<close> is \<open>undefined\<close> when \<open>ri\<close> is not an index of the array.
\<close>

definition splitAt :: "int \<Rightarrow> TextModel \<Rightarrow> nat \<times> TextModel" where
  "splitAt index m =
     (let idx = clampIndex m index;
          (ri, off) = locate (runs m) idx
      in if ri < 0 \<or> int (length (runs m)) \<le> ri then (0, m)
         else let i = nat ri; r = runs m ! i in
           if off = 0 then (i, m)
           else if off = length (r_text r) then (i + 1, m)
           else let left = r\<lparr>r_text := take off (r_text r)\<rparr>;
                    right = r\<lparr>r_text := drop off (r_text r)\<rparr>
                in (i + 1, m\<lparr>runs := take i (runs m) @ [left, right] @ drop (i + 1) (runs m)\<rparr>))"

text \<open>The comparison of \<open>_mergeAdjacent\<close>.\<close>

definition sameStyle :: "run \<Rightarrow> run \<Rightarrow> bool" where
  "sameStyle a b \<longleftrightarrow>
     bold a = bold b \<and> italic a = italic b \<and> underline a = underline b \<and> color a = color b"

text \<open>
  \<open>_mergeAdjacent()\<close>: the loop over \<open>this.runs\<close> with the output array \<open>out\<close>;
  \<open>last.text += r.text\<close> changes the last element of \<open>out\<close> in place.
\<close>

fun mergeLoop :: "run list \<Rightarrow> run list \<Rightarrow> run list" where
  "mergeLoop [] out = out"
| "mergeLoop (r # rs) out =
     (if out \<noteq> [] \<and> sameStyle (last out) r
      then mergeLoop rs (butlast out @ [(last out)\<lparr>r_text := r_text (last out) @ r_text r\<rparr>])
      else mergeLoop rs (out @ [r]))"

definition mergeAdjacent :: "TextModel \<Rightarrow> TextModel" where
  "mergeAdjacent m = m\<lparr>runs := mergeLoop (runs m) []\<rparr>"

text \<open>
  \<open>insertAt(index, s, style)\<close>.  \<open>style\<close> may be \<open>null\<close>/\<open>undefined\<close> (\<open>None\<close>);
  \<open>!!(style && style.bold)\<close> is a boolean, \<open>(style && style.color) || "#111"\<close> keeps a
  truthy colour.  \<open>this.runs.splice(at, 0, run)\<close> inserts before position \<open>at\<close>.
\<close>

definition styleField :: "(style \<Rightarrow> jsval) \<Rightarrow> style option \<Rightarrow> jsval" where
  "styleField f st = (case st of None \<Rightarrow> JUndefined | Some s \<Rightarrow> f s)"

definition newRun :: "string \<Rightarrow> style option \<Rightarrow> run" where
  "newRun s st =
     \<lparr>bold = JBool (truthy (styleField bold st)),
      italic = JBool (truthy (styleField italic st)),
      underline = JBool (truthy (styleField underline st)),
      color = (if truthy (styleField color st) then styleField color st else JStr ''#111''),
      r_text = s\<rparr>"

definition insertAt :: "int \<Rightarrow> string \<Rightarrow> style option \<Rightarrow> TextModel \<Rightarrow> TextModel" where
  "insertAt index s st m =
     (if s = [] then m
      else let idx = int (clampIndex m index);
               (pos, m1) = splitAt idx m;
               m2 = m1\<lparr>runs := take pos (runs m1) @ [newRun s st] @ drop pos (runs m1)\<rparr>
           in rebuildText (mergeAdjacent m2))"

text \<open>
  \<open>deleteRange(start, end)\<close>; \<open>this.runs.splice(a, b-a)\<close> removes \<open>max 0 (b-a)\<close> runs
  from position \<open>a\<close>, which is what \<open>drop (a + (b - a))\<close> does on \<open>nat\<close>.
\<close>

definition deleteRange :: "int \<Rightarrow> int \<Rightarrow> TextModel \<Rightarrow> TextModel" where
  "deleteRange start0 end0 m =
     (if start0 = end0 then m
      else let (s1, e1) = (if start0 > end0 then (end0, start0) else (start0, end0));
               start = int (clampIndex m s1);
               end' = int (clampIndex m e1)
           in if end' \<le> start then m
              else let (a, m1) = splitAt start m;
                       (b, m2) = splitAt end' m1;
                       m3 = m2\<lparr>runs := take a (runs m2) @ drop (a + (b - a)) (runs m2)\<rparr>
                   in rebuildText (mergeAdjacent m3))"

text \<open>
  The loop of \<open>applyStyle\<close>: \<open>for(let i=a;i<b;i++)\<close> assigns to \<open>this.runs[i][prop]\<close>,
  which throws a TypeError when \<open>this.runs[i]\<close> is \<open>undefined\<close>.
\<close>

function styleLoop :: "nat \<Rightarrow> nat \<Rightarrow> styleProp \<Rightarrow> bool \<Rightarrow> jsval \<Rightarrow> run list \<Rightarrow> jserror + run list" where
  "styleLoop i b p toggle v rs =
     (if i < b then
        (if i < length rs then
           styleLoop (i + 1) b p toggle v
             (rs[i := (if toggle then setProp p (JBool (\<not> truthy (getProp p (rs ! i)))) (rs ! i)
                       else setProp p v (rs ! i))])
         else Inl TypeError)
      else Inr rs)"
  by pat_completeness auto
termination
  by (relation "measure (\<lambda>(i, b, p, toggle, v, rs). b - i)") auto

declare styleLoop.simps [simp del]

definition applyStyle :: "int \<Rightarrow> int \<Rightarrow> styleProp \<Rightarrow> bool \<Rightarrow> jsval \<Rightarrow> TextModel \<Rightarrow> jserror + TextModel" where
  "applyStyle start0 end0 p toggle v m =
     (if start0 = end0 then Inr m
      else let (s1, e1) = (if start0 > end0 then (end0, start0) else (start0, end0));
               start = int (clampIndex m s1);
               end' = int (clampIndex m e1);
               (a, m1) = splitAt start m;
               (b, m2) = splitAt end' m1
           in case styleLoop a b p toggle v (runs m2) of
                Inl e \<Rightarrow> Inl e
              | Inr rs \<Rightarrow> Inr (rebuildText (mergeAdjacent (m2\<lparr>runs := rs\<rparr>))))"

text \<open>
  \<open>getRunsInRange(start, end)\<close> returns copies of the runs between the two
  boundaries; the two calls of \<open>_splitAt\<close> act on \<open>this.runs\<close>, so the buffer is
  returned as well.
\<close>

definition getRunsInRange :: "int \<Rightarrow> int \<Rightarrow> TextModel \<Rightarrow> run list \<times> TextModel" where
  "getRunsInRange start0 end0 m =
     (let start = int (clampIndex m start0);
          end' = int (clampIndex m end0);
          (a, m1) = splitAt start m;
          (b, m2) = splitAt end' m1
      in (take (b - a) (drop a (runs m2)), m2))"


subsection \<open>Sequences of mutations, and the two buffer invariants\<close>

text \<open>
  A client's calls of the four mutating methods, and their sequential execution (an
  exception ends the sequence).
\<close>

datatype mutation =
    SetText string
  | InsertAt int string "style option"
  | DeleteRange int int
  | ApplyStyle int int styleProp bool jsval

fun applyMutation :: "mutation \<Rightarrow> TextModel \<Rightarrow> jserror + TextModel" where
  "applyMutation (SetText s) m = Inr (setText s m)"
| "applyMutation (InsertAt i s st) m = Inr (insertAt i s st m)"
| "applyMutation (DeleteRange a b) m = Inr (deleteRange a b m)"
| "applyMutation (ApplyStyle a b p tg v) m = applyStyle a b p tg v m"

fun applyMutations :: "mutation list \<Rightarrow> TextModel \<Rightarrow> jserror + TextModel" where
  "applyMutations [] m = Inr m"
| "applyMutations (x # xs) m =
     (case applyMutation x m of Inl e \<Rightarrow> Inl e | Inr m' \<Rightarrow> applyMutations xs m')"

text \<open>The cached text is the concatenation of the run texts.\<close>

definition textInv :: "TextModel \<Rightarrow> bool" where
  "textInv m \<longleftrightarrow> m_text m = concat (map r_text (runs m))"

text \<open>No two neighbours in the run sequence have the same style.\<close>

fun noAdjacentSame :: "run list \<Rightarrow> bool" where
  "noAdjacentSame (a # b # rs) = (\<not> sameStyle a b \<and> noAdjacentSame (b # rs))"
| "noAdjacentSame rs = True"

text \<open>The number of characters in the first \<open>k\<close> runs.\<close>

definition pre :: "run list \<Rightarrow> nat \<Rightarrow> nat" where
  "pre rs k = length (concat (map r_text (take k rs)))"

section \<open>Selection and the edit controller (classes SelectionModel, TextControl)\<close>

record SelectionModel =
  anchor :: int
  head :: int

definition sel_start :: "SelectionModel \<Rightarrow> int" where
  "sel_start sel = min (anchor sel) (head sel)"

definition sel_end :: "SelectionModel \<Rightarrow> int" where
  "sel_end sel = max (anchor sel) (head sel)"

definition sel_empty :: "SelectionModel \<Rightarrow> bool" where
  "sel_empty sel \<longleftrightarrow> anchor sel = head sel"

definition collapseTo :: "int \<Rightarrow> SelectionModel \<Rightarrow> SelectionModel" where
  "collapseTo pos sel = sel\<lparr>anchor := pos, head := pos\<rparr>"

text \<open>A history entry \<open>{ text, sel: { a, h } }\<close>.\<close>

record snapshot =
  s_text :: string
  s_a :: int
  s_h :: int

text \<open>
  The fields of \<open>TextControl\<close> that the buffer, the history and the layout read or
  write.  \<open>history\<close> and \<open>redoStack\<close> are the arrays \<open>_history\<close> and \<open>_redo\<close>, newest
  entry last; \<open>border_left\<close> and \<open>border_right\<close> are \<open>Border.left\<close> and \<open>Border.right\<close>.
  The view state (\<open>_preferredX\<close>, \<open>_showCaret\<close>, \<open>_blinkTimer\<close>, \<open>_scrollY\<close>, \<open>_dirty\<close>) is
  written by the methods below and read by none of them; it is left out, and so are
  the statements that only write it.  The layout object is a separate record below.
  The control is one with \<open>styleAwareLayout = false\<close>, the value the constructor sets.
\<close>

record TextControl =
  textModel :: TextModel
  selection :: SelectionModel
  history :: "snapshot list"
  redoStack :: "snapshot list"
  historyLimit :: nat
  currentStyle :: style
  wrap :: bool
  wordWrap :: string
  hyphenate :: bool
  hyphenChar :: string
  width :: real
  border_left :: real
  border_right :: real

definition snapshot :: "TextControl \<Rightarrow> snapshot" where
  "snapshot c = \<lparr>s_text = m_text (textModel c), s_a = anchor (selection c), s_h = head (selection c)\<rparr>"

definition restore :: "snapshot \<Rightarrow> TextControl \<Rightarrow> TextControl" where
  "restore st c = c\<lparr>textModel := setText (s_text st) (textModel c),
                    selection := (selection c)\<lparr>anchor := s_a st, head := s_h st\<rparr>\<rparr>"

text \<open>
  \<open>pushHistory()\<close>: push, drop the oldest entry (\<open>shift\<close>) when the array is longer
  than the limit, empty the redo array.
\<close>

definition pushHistory :: "TextControl \<Rightarrow> TextControl" where
  "pushHistory c =
     (let h = history c @ [snapshot c];
          h' = (if length h > historyLimit c then tl h else h)
      in c\<lparr>history := h', redoStack := []\<rparr>)"

definition undo :: "TextControl \<Rightarrow> TextControl" where
  "undo c =
     (if history c = [] then c
      else let current = snapshot c;
               prev = last (history c);
               c1 = c\<lparr>history := butlast (history c), redoStack := redoStack c @ [current]\<rparr>
           in restore prev c1)"

definition redo :: "TextControl \<Rightarrow> TextControl" where
  "redo c =
     (if redoStack c = [] then c
      else let current = snapshot c;
               next = last (redoStack c);
               c1 = c\<lparr>redoStack := butlast (redoStack c), history := history c @ [current]\<rparr>
           in restore next c1)"

text \<open>
  \<open>typeText(s)\<close> up to \<open>sel.collapseTo(sel.start + s.length)\<close>.  The four statements
  that follow in the source (\<open>_preferredX = ...\<close>, \<open>resetCaretBlink()\<close>,
  \<open>ensureCaretVisible()\<close>, \<open>invalidate()\<close>) read the buffer and the selection and write
  view state and the layout cache only.
\<close>

definition typeText :: "string \<Rightarrow> TextControl \<Rightarrow> TextControl" where
  "typeText s c =
     (let c1 = pushHistory c;
          c2 = (if \<not> sel_empty (selection c1)
                then c1\<lparr>textModel := deleteRange (sel_start (selection c1)) (sel_end (selection c1))
                                       (textModel c1),
                        selection := collapseTo (sel_start (selection c1)) (selection c1)\<rparr>
                else c1);
          c3 = c2\<lparr>textModel := insertAt (sel_start (selection c2)) s (Some (currentStyle c2))
                                   (textModel c2)\<rparr>
      in c3\<lparr>selection := collapseTo (sel_start (selection c3) + int (length s)) (selection c3)\<rparr>)"

text \<open>
  The values that the constructor and \<open>initialize()\<close> give the fields above (borders
  of 6 where the factory set none), for a control of the given width.
\<close>

definition newTextControl :: "real \<Rightarrow> TextControl" where
  "newTextControl w =
     \<lparr>textModel = newTextModel [], selection = \<lparr>anchor = 0, head = 0\<rparr>,
      history = [], redoStack = [], historyLimit = 200,
      currentStyle = \<lparr>bold = JBool False, italic = JBool False, underline = JBool False,
                      color = JStr ''#111''\<rparr>,
      wrap = True, wordWrap = ''word'', hyphenate = False, hyphenChar = ''-'',
      width = w, border_left = 6, border_right = 6\<rparr>"


section \<open>The layout engine (class TextLayout) and the measurement collaborator\<close>

text \<open>
  \<open>measureText(s).width\<close> of the paint object, under the layout's font, is a parameter
  \<open>ms\<close> of every function below.  Pixel widths are JavaScript numbers; they are only
  compared and subtracted here and are modelled as reals.
\<close>

type_synonym measureText = "string \<Rightarrow> real"

text \<open>The binary search of \<open>PaintCanvas.cutText\<close> (src/paint.js).\<close>

function cutLoop :: "measureText \<Rightarrow> string \<Rightarrow> real \<Rightarrow> nat \<Rightarrow> nat \<Rightarrow> nat" where
  "cutLoop ms txt w lo hi =
     (if lo < hi then
        (let mid = (lo + hi + 1) div 2 in
         if ms (take mid txt) \<le> w then cutLoop ms txt w mid hi
         else cutLoop ms txt w lo (mid - 1))
      else lo)"
  by pat_completeness auto
termination
  by (relation "measure (\<lambda>(ms, txt, w, lo, hi). hi - lo)") auto

declare cutLoop.simps [simp del]

definition cutText :: "measureText \<Rightarrow> string \<Rightarrow> real \<Rightarrow> string \<times> string" where
  "cutText ms txt w =
     (if txt = [] then ([], [])
      else if \<not> (w > 0) then ([], txt)
      else if ms txt \<le> w then (txt, [])
      else let lo = cutLoop ms txt w 0 (length txt) in (take lo txt, drop lo txt))"

text \<open>
  \<open>/\s/.test(ch)\<close> on the characters a \<open>char\<close> can hold: tab, line feed, vertical tab,
  form feed, carriage return, space and no-break space.
\<close>

definition isSpace :: "char \<Rightarrow> bool" where
  "isSpace ch \<longleftrightarrow> (of_char ch :: nat) \<in> {9, 10, 11, 12, 13, 32, 160}"

text \<open>
  The scan \<open>for(let i = first.length - 1; i >= 0; i--)\<close> for the last white-space
  character: its index, or \<open>-1\<close>.  \<open>lastSpaceBelow s n\<close> scans the indices below \<open>n\<close>.
\<close>

fun lastSpaceBelow :: "string \<Rightarrow> nat \<Rightarrow> int" where
  "lastSpaceBelow s 0 = -1"
| "lastSpaceBelow s (Suc i) = (if isSpace (s ! i) then int i else lastSpaceBelow s i)"

definition lastSpace :: "string \<Rightarrow> int" where
  "lastSpace s = lastSpaceBelow s (length s)"

text \<open>
  The loop \<open>while(f.length > 1 && measureText(f + hy).width > W) f = f.slice(0, -1)\<close>.
\<close>

function hyphenTrim :: "measureText \<Rightarrow> real \<Rightarrow> string \<Rightarrow> string \<Rightarrow> string" where
  "hyphenTrim ms W hy f =
     (if length f > 1 \<and> ms (f @ hy) > W then hyphenTrim ms W hy (butlast f) else f)"
  by pat_completeness auto
termination
  by (relation "measure (\<lambda>(ms, W, hy, f). length f)") auto

declare hyphenTrim.simps [simp del]

record line =
  l_text :: string
  l_start :: nat
  l_end :: nat

text \<open>
  One pass through the body of \<open>while(rest.length > 0)\<close> on the path without
  style-aware measurement (src/main.js, lines 482 to 523).  Each of the three exits of
  the body pushes \<open>{ text: t, start: offset, end: offset + t.length }\<close>, adds
  \<open>t.length\<close> to \<open>offset\<close> and assigns \<open>rest\<close>; \<open>wrapStep\<close> returns \<open>t\<close> and the new
  \<open>rest\<close>:
  the word break (\<open>splitAt > 0\<close>), the hyphenated line, and the standard cut.
\<close>

definition wrapStep :: "measureText \<Rightarrow> TextControl \<Rightarrow> real \<Rightarrow> string \<Rightarrow> string \<times> string" where
  "wrapStep ms c W rest =
     (let first = fst (cutText ms rest W) in
      if first = [] then (take 1 rest, drop 1 rest)
      else if wordWrap c = ''word'' \<and> length first < length rest then
        (let sp = lastSpace first in
         if sp > 0 then
           (let wordLine = take (nat (sp + 1)) first;
                carry = drop (nat (sp + 1)) first
            in (wordLine, carry @ drop (length first) rest))
         else if hyphenate c \<and> length first > 1 then
           (let hy = (if hyphenChar c = [] then ''-'' else hyphenChar c);
                f = hyphenTrim ms W hy first
            in (f @ hy, drop (length f) rest))
         else (first, drop (length first) rest))
      else (first, drop (length first) rest))"

lemma length_cutText_fst: "length (fst (cutText ms rest W)) \<le> length rest"
  by (simp add: cutText_def Let_def)

lemma lastSpaceBelow_less: "lastSpaceBelow s n < int n"
  by (induction n) auto

lemma lastSpace_less: "lastSpace s < int (length s)"
  by (simp add: lastSpace_def lastSpaceBelow_less)

lemma hyphenTrim_nonempty: "f \<noteq> [] \<Longrightarrow> hyphenTrim ms W hy f \<noteq> []"
proof (induction ms W hy f rule: hyphenTrim.induct)
  case (1 ms W hy f)
  show ?case
  proof (cases "length f > 1 \<and> ms (f @ hy) > W")
    case True
    then have "butlast f \<noteq> []" by (cases f rule: rev_cases) auto
    with "1.IH" True show ?thesis by (subst hyphenTrim.simps) simp
  next
    case False
    with "1.prems" show ?thesis by (subst hyphenTrim.simps) auto
  qed
qed

lemma wrapStep_progress:
  assumes "rest \<noteq> []"
  shows "length (snd (wrapStep ms c W rest)) < length rest"
proof -
  let ?first = "fst (cutText ms rest W)"
  have fl: "length ?first \<le> length rest" by (rule length_cutText_fst)
  have sp: "lastSpace ?first < int (length ?first)" by (rule lastSpace_less)
  have hy: "?first \<noteq> [] \<Longrightarrow> hyphenTrim ms W hy ?first \<noteq> []" for hy
    by (rule hyphenTrim_nonempty)
  have l0: "xs \<noteq> [] \<Longrightarrow> 0 < length xs" for xs :: string by simp
  show ?thesis
    using assms fl sp l0[OF hy] l0[of ?first]
    by (auto simp: wrapStep_def Let_def)
qed

text \<open>The loop \<open>while(rest.length > 0)\<close> with the variables \<open>rest\<close>, \<open>offset\<close>, \<open>lines\<close>.\<close>

function wrapLoop :: "measureText \<Rightarrow> TextControl \<Rightarrow> real \<Rightarrow> string \<Rightarrow> nat \<Rightarrow> line list
                        \<Rightarrow> line list \<times> nat" where
  "wrapLoop ms c W rest offset lines =
     (if rest = [] then (lines, offset)
      else let (t, rest') = wrapStep ms c W rest
           in wrapLoop ms c W rest' (offset + length t)
                (lines @ [\<lparr>l_text = t, l_start = offset, l_end = offset + length t\<rparr>]))"
  by pat_completeness auto
termination
proof (relation "measure (\<lambda>(ms, c, W, rest, offset, lines). length rest)")
  show "wf (measure (\<lambda>(ms, c, W, rest, offset, lines). length rest))" by simp
next
  fix ms c W rest offset lines x t rest'
  assume "rest \<noteq> []" "x = wrapStep ms c W rest" "(t, rest') = x"
  with wrapStep_progress[of rest ms c W]
  show "((ms, c, W, rest', offset + length t,
          lines @ [\<lparr>l_text = t, l_start = offset, l_end = offset + length t\<rparr>]),
         (ms, c, W, rest, offset, lines))
        \<in> measure (\<lambda>(ms, c, W, rest, offset, lines). length rest)"
    by (metis (no_types, lifting) in_measure old.prod.case snd_conv)
qed

declare wrapLoop.simps [simp del]

text \<open>
  The body of \<open>for(let p=0;p<paragraphs.length;p++)\<close> before the newline
  adjustment: an empty paragraph is one empty line, a paragraph of a control with
  \<open>wrap === false\<close> is one line, any other paragraph is wrapped.
\<close>

definition layoutParagraph :: "measureText \<Rightarrow> TextControl \<Rightarrow> real \<Rightarrow> string \<Rightarrow> nat \<Rightarrow> line list
                                 \<Rightarrow> line list \<times> nat" where
  "layoutParagraph ms c W rest offset lines =
     (if rest = [] then (lines @ [\<lparr>l_text = [], l_start = offset, l_end = offset\<rparr>], offset)
      else if \<not> wrap c then
        (lines @ [\<lparr>l_text = rest, l_start = offset, l_end = offset + length rest\<rparr>],
         offset + length rest)
      else wrapLoop ms c W rest offset lines)"

text \<open>
  \<open>lines[lines.length-1].end += 1\<close>, a TypeError on an empty array.
\<close>

definition bumpLast :: "line list \<Rightarrow> jserror + line list" where
  "bumpLast lines =
     (if lines = [] then Inl TypeError
      else Inr (butlast lines @ [(last lines)\<lparr>l_end := l_end (last lines) + 1\<rparr>]))"

text \<open>
  The loop over the paragraphs; \<open>p < paragraphs.length - 1\<close> holds when a paragraph
  follows.
\<close>

fun paragraphLoop :: "measureText \<Rightarrow> TextControl \<Rightarrow> real \<Rightarrow> string list \<Rightarrow> nat \<Rightarrow> line list
                        \<Rightarrow> jserror + line list" where
  "paragraphLoop ms c W [] offset lines = Inr lines"
| "paragraphLoop ms c W (p # ps) offset lines =
     (let (lines1, offset1) = layoutParagraph ms c W p offset lines in
      if ps \<noteq> [] then
        (case bumpLast lines1 of
           Inl e \<Rightarrow> Inl e
         | Inr lines2 \<Rightarrow> paragraphLoop ms c W ps (offset1 + 1) lines2)
      else paragraphLoop ms c W ps offset1 lines1)"

text \<open>\<open>model.text.split("\n")\<close>.\<close>

fun splitNewline :: "string \<Rightarrow> string list" where
  "splitNewline [] = [[]]"
| "splitNewline (ch # cs) =
     (if ch = CHR 0x0A then [] # splitNewline cs
      else (case splitNewline cs of
              [] \<Rightarrow> [[ch]]
            | p # ps \<Rightarrow> (ch # p) # ps))"

record layoutCache =
  c_version :: nat
  c_width :: real
  c_lines :: "line list"

text \<open>The fields \<open>_cache\<close> and \<open>paddingLeft\<close> of the layout object.\<close>

record TextLayout =
  cache :: "layoutCache option"
  paddingLeft :: real

definition newTextLayout :: TextLayout where
  "newTextLayout = \<lparr>cache = None, paddingLeft = 4\<rparr>"

definition innerWidth :: "TextControl \<Rightarrow> TextLayout \<Rightarrow> real" where
  "innerWidth c l = width c - border_left c - border_right c - paddingLeft l * 2"

text \<open>The test that guards the early return of \<open>ensure()\<close>.\<close>

definition cacheHit :: "TextControl \<Rightarrow> TextLayout \<Rightarrow> bool" where
  "cacheHit c l =
     (case cache l of
        None \<Rightarrow> False
      | Some ch \<Rightarrow> c_version ch = version (textModel c) \<and> c_width ch = max 0 (innerWidth c l))"

text \<open>
  \<open>ensure()\<close> returns the cache object and the layout object's new state.  The paint
  object is present (it is the parameter \<open>ms\<close>); its \<open>save()\<close>, \<open>restore()\<close> and font
  assignment do not act on the layout.  The paragraphs are laid out as they are when
  \<open>styleAwareLayout\<close> is false; the branch for style-aware measurement (lines 389 to
  473) is outside this embedding.
\<close>

definition ensure :: "measureText \<Rightarrow> TextControl \<Rightarrow> TextLayout \<Rightarrow> jserror + (layoutCache \<times> TextLayout)" where
  "ensure ms c l =
     (let model = textModel c; W = max 0 (innerWidth c l) in
      if cacheHit c l then Inr (the (cache l), l)
      else case paragraphLoop ms c W (splitNewline (m_text model)) 0 [] of
             Inl e \<Rightarrow> Inl e
           | Inr lines \<Rightarrow>
               (let ch = \<lparr>c_version = version model, c_width = W, c_lines = lines\<rparr>
                in Inr (ch, l\<lparr>cache := Some ch\<rparr>)))"

text \<open>
  What a line stands for in the flattened text: its text, followed by a newline when
  its \<open>end\<close> counts one (the line's length is \<open>end - start - 1\<close> then).
\<close>

definition lineSource :: "line \<Rightarrow> string" where
  "lineSource L =
     l_text L @ (if l_end L = l_start L + length (l_text L) + 1 then [CHR 0x0A] else [])"

text \<open>\<open>s.slice(a, b)\<close> for \<open>0 \<le> a\<close>, \<open>0 \<le> b\<close>.\<close>

definition slice :: "string \<Rightarrow> nat \<Rightarrow> nat \<Rightarrow> string" where
  "slice s a b = take (b - a) (drop a s)"

text \<open>A measurement in which every character is one pixel wide.\<close>

definition unitMeasure :: measureText where
  "unitMeasure s = real (length s)"

text \<open>The paragraphs joined with newlines again (the inverse of \<open>split("\n")\<close>).\<close>

fun joinNewline :: "string list \<Rightarrow> string" where
  "joinNewline [] = []"
| "joinNewline [p] = p"
| "joinNewline (p # q # ps) = p @ [CHR 0x0A] @ joinNewline (q # ps)"

text \<open>
  The lines reconstruct the text \<open>T\<close>, and each line's offsets lie in \<open>T\<close> and select
  what the line stands for.
\<close>

definition linesMatch :: "line list \<Rightarrow> string \<Rightarrow> bool" where
  "linesMatch lines T \<longleftrightarrow>
     concat (map lineSource lines) = T
     \<and> (\<forall>L \<in> set lines. l_end L \<le> length T \<and> slice T (l_start L) (l_end L) = lineSource L)"

text \<open>A line as the wrapping loop pushes it, before any newline adjustment.\<close>

definition fresh :: "line \<Rightarrow> bool" where
  "fresh L \<longleftrightarrow> l_end L = l_start L + length (l_text L)"

text \<open>
  A control of width 25, that is of inner width \<open>25 - 6 - 6 - 2 * 4 = 5\<close>, holding the
  text \<open>t\<close>; with \<open>unitMeasure\<close>, exactly five characters fit a line.
\<close>

definition exampleControl :: "string \<Rightarrow> TextControl" where
  "exampleControl t = (newTextControl 25)\<lparr>textModel := newTextModel t\<rparr>"

section \<open>Properties of the styled buffer\<close>

subsection \<open>Locating and splitting\<close>

lemma pre_0 [simp]: "pre rs 0 = 0" by (simp add: pre_def)
lemma pre_Nil [simp]: "pre [] k = 0" by (simp add: pre_def)
lemma pre_Cons_Suc [simp]: "pre (r # rs) (Suc k) = length (r_text r) + pre rs k"
  by (simp add: pre_def)

lemma pre_mono: "k \<le> j \<Longrightarrow> pre rs k \<le> pre rs j"
proof (induction rs arbitrary: k j)
  case Nil then show ?case by simp
next
  case (Cons r rs)
  show ?case
  proof (cases k)
    case 0 then show ?thesis by simp
  next
    case (Suc k')
    with Cons.prems obtain j' where j: "j = Suc j'" "k' \<le> j'" by (cases j) auto
    with Suc Cons.IH[of k' j'] show ?thesis by simp
  qed
qed

lemma pre_Suc_nth: "k < length rs \<Longrightarrow> pre rs (Suc k) = pre rs k + length (r_text (rs ! k))"
  by (simp add: pre_def take_Suc_conv_app_nth)

lemma pre_all: "length rs \<le> k \<Longrightarrow> pre rs k = length (concat (map r_text rs))"
  by (simp add: pre_def)

lemma locate_loop_Some:
  "locate_loop rs index i0 acc0 = Some (i, off) \<Longrightarrow> acc0 \<le> index \<Longrightarrow>
     \<exists>j. i = i0 + j \<and> j < length rs \<and> acc0 + pre rs j + off = index
        \<and> off \<le> length (r_text (rs ! j))"
proof (induction rs arbitrary: i0 acc0)
  case Nil then show ?case by simp
next
  case (Cons r rs)
  show ?case
  proof (cases "index \<le> acc0 + length (r_text r)")
    case True
    with Cons.prems have "i = i0" "off = index - acc0" by (simp_all add: Let_def)
    with True Cons.prems(2) show ?thesis by (intro exI[of _ 0]) simp
  next
    case False
    with Cons.prems have "locate_loop rs index (i0 + 1) (acc0 + length (r_text r)) = Some (i, off)"
      by (simp add: Let_def)
    from Cons.IH[OF this] False obtain j where
      "i = i0 + 1 + j" "j < length rs" "acc0 + length (r_text r) + pre rs j + off = index"
      "off \<le> length (r_text (rs ! j))" by auto
    then show ?thesis by (intro exI[of _ "Suc j"]) simp
  qed
qed

lemma locate_loop_None:
  "locate_loop rs index i0 acc0 = None \<Longrightarrow> rs \<noteq> [] \<Longrightarrow>
     acc0 + length (concat (map r_text rs)) < index"
proof (induction rs arbitrary: i0 acc0)
  case Nil then show ?case by simp
next
  case (Cons r rs)
  from Cons.prems(1) have nle: "\<not> index \<le> acc0 + length (r_text r)"
    and rec: "locate_loop rs index (i0 + 1) (acc0 + length (r_text r)) = None"
    by (simp_all add: Let_def split: if_splits)
  show ?case
  proof (cases "rs = []")
    case True with nle show ?thesis by simp
  next
    case False
    from Cons.IH[OF rec False] show ?thesis by simp
  qed
qed


lemma splitAt_frame:
  "splitAt idx m = (a, m') \<Longrightarrow>
     m_text m' = m_text m \<and> version m' = version m
     \<and> concat (map r_text (runs m')) = concat (map r_text (runs m))"
proof -
  assume h: "splitAt idx m = (a, m')"
  obtain ri off where loc: "locate (runs m) (clampIndex m idx) = (ri, off)" by force
  show ?thesis
  proof (cases "ri < 0 \<or> int (length (runs m)) \<le> ri")
    case True
    with h loc show ?thesis by (simp add: splitAt_def Let_def)
  next
    case False
    then have i: "nat ri < length (runs m)" by auto
    have "concat (map r_text (take (nat ri) (runs m) @
            [(runs m ! nat ri)\<lparr>r_text := take off (r_text (runs m ! nat ri))\<rparr>,
             (runs m ! nat ri)\<lparr>r_text := drop off (r_text (runs m ! nat ri))\<rparr>] @
            drop (nat ri + 1) (runs m)))
          = concat (map r_text (take (nat ri) (runs m) @ [runs m ! nat ri] @ drop (nat ri + 1) (runs m)))"
      by simp
    also have "take (nat ri) (runs m) @ [runs m ! nat ri] @ drop (nat ri + 1) (runs m) = runs m"
      using i by (simp add: id_take_nth_drop[symmetric])
    finally show ?thesis using h loc False
      by (auto simp: splitAt_def Let_def split: if_splits)
  qed
qed

lemma splitAt_pos:
  assumes inv: "textInv m" and h: "splitAt idx m = (a, m')"
  shows "a \<le> length (runs m') \<and> pre (runs m') a = clampIndex m idx"
proof -
  let ?rs = "runs m" and ?k = "clampIndex m idx"
  have kle: "?k \<le> length (concat (map r_text ?rs))"
    using inv by (simp add: textInv_def clampIndex_def)
  show ?thesis
  proof (cases "locate_loop ?rs ?k 0 0")
    case None
    have "?rs = []"
    proof (rule ccontr)
      assume "?rs \<noteq> []"
      from locate_loop_None[OF None this] kle show False by simp
    qed
    with None h kle show ?thesis by (auto simp: splitAt_def locate_def Let_def)
  next
    case (Some p)
    obtain i off where p: "p = (i, off)" by force
    from locate_loop_Some[OF Some[unfolded p]] have
      i: "i < length ?rs" and sum: "pre ?rs i + off = ?k" and off: "off \<le> length (r_text (?rs ! i))"
      by auto
    have loc: "locate ?rs ?k = (int i, off)" using Some p by (simp add: locate_def)
    consider "off = 0" | "off \<noteq> 0" "off = length (r_text (?rs ! i))"
      | "off \<noteq> 0" "off \<noteq> length (r_text (?rs ! i))" by blast
    then show ?thesis
    proof cases
      case 1
      with h loc i sum show ?thesis by (auto simp: splitAt_def Let_def)
    next
      case 2
      with h loc i have "a = i + 1" "m' = m" by (auto simp: splitAt_def Let_def)
      with i sum 2 show ?thesis by (simp add: pre_Suc_nth)
    next
      case 3
      with h loc i have a: "a = i + 1"
        and m': "runs m' = take i ?rs @ [(?rs ! i)\<lparr>r_text := take off (r_text (?rs ! i))\<rparr>,
                    (?rs ! i)\<lparr>r_text := drop off (r_text (?rs ! i))\<rparr>] @ drop (i + 1) ?rs"
        by (auto simp: splitAt_def Let_def)
      have "take (i + 1) (runs m') = take i ?rs @ [(?rs ! i)\<lparr>r_text := take off (r_text (?rs ! i))\<rparr>]"
        using i by (simp add: m')
      then have "pre (runs m') (i + 1) = pre ?rs i + off"
        using off by (simp add: pre_def min_def)
      with a sum i show ?thesis by (simp add: m')
    qed
  qed
qed

lemma splitAt_cases:
  assumes h: "splitAt idx m = (a, m')"
  shows "(m' = m \<and> a \<le> length (runs m)) \<or>
         (\<exists>i off. i < length (runs m) \<and> 0 < off \<and> off < length (r_text (runs m ! i))
            \<and> pre (runs m) i + off = clampIndex m idx \<and> a = i + 1
            \<and> m' = m\<lparr>runs := take i (runs m) @
                   [(runs m ! i)\<lparr>r_text := take off (r_text (runs m ! i))\<rparr>,
                    (runs m ! i)\<lparr>r_text := drop off (r_text (runs m ! i))\<rparr>] @
                   drop (i + 1) (runs m)\<rparr>)"
proof -
  let ?rs = "runs m" and ?k = "clampIndex m idx"
  show ?thesis
  proof (cases "locate_loop ?rs ?k 0 0")
    case None
    show ?thesis
    proof (cases "?rs = []")
      case True
      with None h show ?thesis by (simp add: splitAt_def locate_def Let_def)
    next
      case False
      then have "nat (int (length ?rs) - 1) = length ?rs - 1" "\<not> int (length ?rs) - 1 < 0"
        "\<not> int (length ?rs) \<le> int (length ?rs) - 1" "length ?rs - 1 < length ?rs"
        by (auto simp: Suc_le_eq)
      with None h False show ?thesis
        by (auto simp: splitAt_def locate_def Let_def last_conv_nth split: if_splits)
    qed
  next
    case (Some p)
    obtain i off where p: "p = (i, off)" by force
    from locate_loop_Some[OF Some[unfolded p]] have
      i: "i < length ?rs" and sum: "pre ?rs i + off = ?k" and off: "off \<le> length (r_text (?rs ! i))"
      by auto
    have loc: "locate ?rs ?k = (int i, off)" using Some p by (simp add: locate_def)
    show ?thesis
    proof (cases "off \<noteq> 0 \<and> off \<noteq> length (r_text (?rs ! i))")
      case False
      with h loc i show ?thesis by (auto simp: splitAt_def Let_def split: if_splits)
    next
      case True
      with h loc i have "a = i + 1"
        "m' = m\<lparr>runs := take i ?rs @ [(?rs ! i)\<lparr>r_text := take off (r_text (?rs ! i))\<rparr>,
                    (?rs ! i)\<lparr>r_text := drop off (r_text (?rs ! i))\<rparr>] @ drop (i + 1) ?rs\<rparr>"
        by (auto simp: splitAt_def Let_def)
      with i sum off True show ?thesis by (intro disjI2 exI[of _ i] exI[of _ off]) simp
    qed
  qed
qed

lemma splitAt_keeps_prefix:
  assumes h: "splitAt idx m = (b, m')" and k: "k \<le> length (runs m)"
    and le: "pre (runs m) k \<le> clampIndex m idx"
  shows "take k (runs m') = take k (runs m)"
  using splitAt_cases[OF h]
proof (elim disjE exE conjE)
  fix i off
  assume i: "i < length (runs m)" and off: "0 < off" "off < length (r_text (runs m ! i))"
    and sum: "pre (runs m) i + off = clampIndex m idx"
    and m': "m' = m\<lparr>runs := take i (runs m) @
                   [(runs m ! i)\<lparr>r_text := take off (r_text (runs m ! i))\<rparr>,
                    (runs m ! i)\<lparr>r_text := drop off (r_text (runs m ! i))\<rparr>] @
                   drop (i + 1) (runs m)\<rparr>"
  have "k \<le> i"
  proof (rule ccontr)
    assume "\<not> k \<le> i"
    then have "Suc i \<le> k" by simp
    from pre_mono[OF this, of "runs m"] have "pre (runs m) i + length (r_text (runs m ! i)) \<le> pre (runs m) k"
      using i by (simp add: pre_Suc_nth)
    with le sum off show False by simp
  qed
  then show ?thesis using i by (simp add: m')
qed simp

lemma splitAt_length:
  assumes h: "splitAt idx m = (a, m')"
  shows "length (runs m) \<le> length (runs m') \<and> length (runs m') \<le> length (runs m) + 1
     \<and> a \<le> length (runs m')"
  using splitAt_cases[OF h] by (elim disjE exE conjE) auto


lemma concat_mergeLoop:
  "concat (map r_text (mergeLoop rs out)) = concat (map r_text out) @ concat (map r_text rs)"
proof (induction rs arbitrary: out)
  case Nil then show ?case by simp
next
  case (Cons r rs)
  show ?case
  proof (cases "out \<noteq> [] \<and> sameStyle (last out) r")
    case True
    then have "concat (map r_text out) = concat (map r_text (butlast out)) @ r_text (last out)"
      by (cases out rule: rev_cases) simp_all
    with True show ?thesis by (simp add: Cons.IH)
  next
    case False
    then show ?thesis by (auto simp: Cons.IH)
  qed
qed

lemma sameStyle_text_update [simp]:
  "sameStyle (a\<lparr>r_text := t\<rparr>) b = sameStyle a b"
  "sameStyle a (b\<lparr>r_text := t\<rparr>) = sameStyle a b"
  by (simp_all add: sameStyle_def)

lemma noAdjacentSame_snoc:
  "noAdjacentSame (out @ [r]) \<longleftrightarrow> noAdjacentSame out \<and> (out = [] \<or> \<not> sameStyle (last out) r)"
  by (induction out rule: noAdjacentSame.induct) auto

lemma noAdjacentSame_update_last:
  "out \<noteq> [] \<Longrightarrow> noAdjacentSame (butlast out @ [(last out)\<lparr>r_text := t\<rparr>]) = noAdjacentSame out"
  by (induction out rule: noAdjacentSame.induct) auto

lemma noAdjacentSame_mergeLoop:
  "noAdjacentSame out \<Longrightarrow> noAdjacentSame (mergeLoop rs out)"
proof (induction rs arbitrary: out)
  case Nil then show ?case by simp
next
  case (Cons r rs)
  show ?case
  proof (cases "out \<noteq> [] \<and> sameStyle (last out) r")
    case True
    with Cons.prems have "noAdjacentSame (butlast out @ [(last out)\<lparr>r_text := r_text (last out) @ r_text r\<rparr>])"
      by (simp add: noAdjacentSame_update_last)
    from Cons.IH[OF this] True show ?thesis by simp
  next
    case False
    with Cons.prems have "noAdjacentSame (out @ [r])" by (auto simp: noAdjacentSame_snoc)
    from Cons.IH[OF this] False show ?thesis by auto
  qed
qed

lemma noAdjacentSame_nth:
  "noAdjacentSame rs \<longleftrightarrow> (\<forall>i. Suc i < length rs \<longrightarrow> \<not> sameStyle (rs ! i) (rs ! Suc i))"
proof (induction rs rule: noAdjacentSame.induct)
  case (1 a b rs)
  show ?case
  proof
    assume h: "noAdjacentSame (a # b # rs)"
    show "\<forall>i. Suc i < length (a # b # rs) \<longrightarrow> \<not> sameStyle ((a # b # rs) ! i) ((a # b # rs) ! Suc i)"
    proof (intro allI impI)
      fix i assume "Suc i < length (a # b # rs)"
      with h 1 show "\<not> sameStyle ((a # b # rs) ! i) ((a # b # rs) ! Suc i)"
        by (cases i) auto
    qed
  next
    assume h: "\<forall>i. Suc i < length (a # b # rs) \<longrightarrow> \<not> sameStyle ((a # b # rs) ! i) ((a # b # rs) ! Suc i)"
    from h[rule_format, of 0] have "\<not> sameStyle a b" by simp
    moreover have "\<forall>i. Suc i < length (b # rs) \<longrightarrow> \<not> sameStyle ((b # rs) ! i) ((b # rs) ! Suc i)"
    proof (intro allI impI)
      fix i assume "Suc i < length (b # rs)"
      with h[rule_format, of "Suc i"] show "\<not> sameStyle ((b # rs) ! i) ((b # rs) ! Suc i)" by simp
    qed
    ultimately show "noAdjacentSame (a # b # rs)" using 1 by simp
  qed
qed simp_all

lemma styleLoop_ok:
  "b \<le> length rs \<Longrightarrow>
     \<exists>rs'. styleLoop i b p tg v rs = Inr rs' \<and> map r_text rs' = map r_text rs"
proof (induction i b p tg v rs rule: styleLoop.induct)
  case (1 i b p toggle v rs)
  show ?case
  proof (cases "i < b")
    case False
    then show ?thesis by (simp add: styleLoop.simps)
  next
    case True
    with "1.prems" have il: "i < length rs" by simp
    let ?rs = "rs[i := (if toggle then setProp p (JBool (\<not> truthy (getProp p (rs ! i)))) (rs ! i)
                       else setProp p v (rs ! i))]"
    have "b \<le> length ?rs" using "1.prems" by simp
    from "1.IH"[OF True il this] obtain rs' where
      r: "styleLoop (i + 1) b p toggle v ?rs = Inr rs'" "map r_text rs' = map r_text ?rs" by blast
    have "map r_text ?rs = map r_text rs"
      using il by (cases p) (simp_all add: map_update list_update_same_conv)
    with r True il show ?thesis by (subst styleLoop.simps) simp
  qed
qed

subsection \<open>Merging, styling and the mutations\<close>

lemma textInv_rebuildText [simp]: "textInv (rebuildText m)"
  by (simp add: textInv_def rebuildText_def)

lemma runs_rebuildText [simp]: "runs (rebuildText m) = runs m"
  by (simp add: rebuildText_def)

lemma version_rebuildText [simp]: "version (rebuildText m) = version m + 1"
  by (simp add: rebuildText_def)

lemma m_text_rebuildText [simp]: "m_text (rebuildText m) = concat (map r_text (runs m))"
  by (simp add: rebuildText_def)

lemma runs_mergeAdjacent [simp]: "runs (mergeAdjacent m) = mergeLoop (runs m) []"
  by (simp add: mergeAdjacent_def)

lemma version_mergeAdjacent [simp]: "version (mergeAdjacent m) = version m"
  by (simp add: mergeAdjacent_def)

lemma textInv_newTextModel [simp]: "textInv (newTextModel t)"
  by (simp add: textInv_def newTextModel_def defaultRun_def)

lemma insertAt_cases:
  "insertAt i s st m = m \<and> s = [] \<or>
   (\<exists>m2. s \<noteq> [] \<and> insertAt i s st m = rebuildText (mergeAdjacent m2))"
  by (auto simp: insertAt_def Let_def split: prod.splits)

lemma deleteRange_cases:
  "deleteRange a b m = m \<or> (\<exists>m3. deleteRange a b m = rebuildText (mergeAdjacent m3))"
  by (auto simp: deleteRange_def Let_def split: prod.splits)

lemma splitAt_pos_le:
  "splitAt idx m = (a, m') \<Longrightarrow> a \<le> length (runs m')"
  using splitAt_length by blast

lemma applyStyle_unfold:
  "a \<noteq> b \<Longrightarrow> applyStyle a b p tg v m =
     (case splitAt (int (clampIndex m (min a b))) m of (x, m1) \<Rightarrow>
        case splitAt (int (clampIndex m (max a b))) m1 of (y, m2) \<Rightarrow>
          case styleLoop x y p tg v (runs m2) of
            Inl e \<Rightarrow> Inl e
          | Inr rs \<Rightarrow> Inr (rebuildText (mergeAdjacent (m2\<lparr>runs := rs\<rparr>))))"
  by (simp add: applyStyle_def min_def max_def Let_def)

lemma applyStyle_cases:
  "applyStyle a b p tg v m = Inr m \<and> a = b \<or>
   (\<exists>m3. a \<noteq> b \<and> applyStyle a b p tg v m = Inr (rebuildText (mergeAdjacent m3))
       \<and> version m3 = version m)"
proof (cases "a = b")
  case True then show ?thesis by (simp add: applyStyle_def)
next
  case False
  obtain x m1 where s: "splitAt (int (clampIndex m (min a b))) m = (x, m1)" by force
  obtain y m2 where e: "splitAt (int (clampIndex m (max a b))) m1 = (y, m2)" by force
  from splitAt_length[OF e] have "y \<le> length (runs m2)" by simp
  from styleLoop_ok[OF this] obtain rs' where
    rs': "styleLoop x y p tg v (runs m2) = Inr rs'" by blast
  have v: "version m2 = version m" using splitAt_frame[OF s] splitAt_frame[OF e] by simp
  have "applyStyle a b p tg v m = Inr (rebuildText (mergeAdjacent (m2\<lparr>runs := rs'\<rparr>)))"
    using s e rs' by (simp add: applyStyle_unfold[OF False])
  with False v show ?thesis by (intro disjI2 exI[of _ "m2\<lparr>runs := rs'\<rparr>"]) simp
qed

lemma applyMutation_textInv:
  "textInv m \<Longrightarrow> \<exists>m'. applyMutation x m = Inr m' \<and> textInv m'"
proof (cases x)
  case (SetText s) then show ?thesis by (simp add: setText_def)
next
  case (InsertAt i s st)
  assume "textInv m"
  with InsertAt insertAt_cases[of i s st m] show ?thesis by auto
next
  case (DeleteRange a b)
  assume "textInv m"
  with DeleteRange deleteRange_cases[of a b m] show ?thesis by auto
next
  case (ApplyStyle a b p tg v)
  assume "textInv m"
  with ApplyStyle applyStyle_cases[of a b p tg v m] show ?thesis by auto
qed

lemma applyMutations_textInv:
  "textInv m \<Longrightarrow> \<exists>m'. applyMutations xs m = Inr m' \<and> textInv m'"
proof (induction xs arbitrary: m)
  case Nil then show ?case by simp
next
  case (Cons x xs)
  from applyMutation_textInv[OF Cons.prems, of x] obtain m1 where
    "applyMutation x m = Inr m1" "textInv m1" by blast
  with Cons.IH[of m1] show ?case by simp
qed

subsection \<open>The text after an insertion, a deletion and a read\<close>

lemma concat_take_pre:
  "concat (map r_text (take k rs)) = take (pre rs k) (concat (map r_text rs))"
proof -
  have "concat (map r_text rs) = concat (map r_text (take k rs)) @ concat (map r_text (drop k rs))"
    by (metis append_take_drop_id concat_append map_append)
  then show ?thesis by (simp add: pre_def)
qed

lemma concat_drop_pre:
  "concat (map r_text (drop k rs)) = drop (pre rs k) (concat (map r_text rs))"
proof -
  have "concat (map r_text rs) = concat (map r_text (take k rs)) @ concat (map r_text (drop k rs))"
    by (metis append_take_drop_id concat_append map_append)
  then show ?thesis by (simp add: pre_def)
qed

lemma clampIndex_le: "clampIndex m i \<le> length (m_text m)"
  by (simp add: clampIndex_def)

lemma clampIndex_idem: "clampIndex m (int (clampIndex m i)) = clampIndex m i"
  by (simp add: clampIndex_def)

lemma clampIndex_mono: "i \<le> j \<Longrightarrow> clampIndex m i \<le> clampIndex m j"
  by (simp add: clampIndex_def)

lemma clampIndex_cong: "m_text m' = m_text m \<Longrightarrow> clampIndex m' i = clampIndex m i"
  by (simp add: clampIndex_def)

lemma splitAt_textInv: "textInv m \<Longrightarrow> splitAt idx m = (a, m') \<Longrightarrow> textInv m'"
  using splitAt_frame[of idx m a m'] by (simp add: textInv_def)

lemma r_text_newRun [simp]: "r_text (newRun s st) = s"
  by (simp add: newRun_def)

lemma insertAt_text:
  assumes inv: "textInv m"
  shows "m_text (insertAt i s st m)
           = take (clampIndex m i) (m_text m) @ s @ drop (clampIndex m i) (m_text m)"
proof (cases "s = []")
  case True then show ?thesis by (simp add: insertAt_def)
next
  case False
  let ?k = "clampIndex m i"
  obtain pos m1 where sp: "splitAt (int ?k) m = (pos, m1)" by force
  from splitAt_pos[OF inv sp] have pos: "pre (runs m1) pos = ?k" by (simp add: clampIndex_idem)
  from splitAt_frame[OF sp] inv have T: "concat (map r_text (runs m1)) = m_text m"
    by (simp add: textInv_def)
  have "m_text (insertAt i s st m)
          = concat (map r_text (take pos (runs m1))) @ s @ concat (map r_text (drop pos (runs m1)))"
    using False sp by (simp add: insertAt_def Let_def concat_mergeLoop)
  then show ?thesis by (simp add: concat_take_pre concat_drop_pre pos T)
qed

lemma deleteRange_unfold:
  "a \<noteq> b \<Longrightarrow> deleteRange a b m =
     (if clampIndex m (max a b) \<le> clampIndex m (min a b) then m
      else case splitAt (int (clampIndex m (min a b))) m of (x, m1) \<Rightarrow>
        case splitAt (int (clampIndex m (max a b))) m1 of (y, m2) \<Rightarrow>
          rebuildText (mergeAdjacent (m2\<lparr>runs := take x (runs m2) @ drop (x + (y - x)) (runs m2)\<rparr>)))"
  by (simp add: deleteRange_def min_def max_def Let_def)

text \<open>After two consecutive splits, at a position and at a later one, both boundaries exist.\<close>

lemma two_splits:
  assumes inv: "textInv m"
    and s: "splitAt (int (clampIndex m i)) m = (x, m1)"
    and e: "splitAt (int (clampIndex m j)) m1 = (y, m2)"
    and le: "clampIndex m i \<le> clampIndex m j"
  shows "pre (runs m2) x = clampIndex m i" "pre (runs m2) y = clampIndex m j"
    "concat (map r_text (runs m2)) = m_text m"
proof -
  have inv1: "textInv m1" by (rule splitAt_textInv[OF inv s])
  have t1: "m_text m1 = m_text m" using splitAt_frame[OF s] by simp
  from splitAt_pos[OF inv s] have x: "x \<le> length (runs m1)" "pre (runs m1) x = clampIndex m i"
    by (simp_all add: clampIndex_idem)
  from splitAt_pos[OF inv1 e] show y: "pre (runs m2) y = clampIndex m j"
    by (simp add: clampIndex_idem clampIndex_cong[OF t1])
  have "pre (runs m1) x \<le> clampIndex m1 (int (clampIndex m j))"
    using x le by (simp add: clampIndex_cong[OF t1] clampIndex_idem)
  from splitAt_keeps_prefix[OF e x(1) this] have "take x (runs m2) = take x (runs m1)" .
  then show "pre (runs m2) x = clampIndex m i" using x by (simp add: pre_def)
  show "concat (map r_text (runs m2)) = m_text m"
    using splitAt_frame[OF e] inv1 t1 by (simp add: textInv_def)
qed

lemma deleteRange_text:
  assumes inv: "textInv m"
  shows "m_text (deleteRange a b m)
           = take (clampIndex m (min a b)) (m_text m) @ drop (clampIndex m (max a b)) (m_text m)"
proof -
  let ?lo = "clampIndex m (min a b)" and ?hi = "clampIndex m (max a b)"
  have lohi: "?lo \<le> ?hi" by (rule clampIndex_mono) simp
  show ?thesis
  proof (cases "a = b \<or> ?hi \<le> ?lo")
    case True
    then have "deleteRange a b m = m" "?lo = ?hi"
      using lohi by (auto simp: deleteRange_unfold deleteRange_def)
    then show ?thesis by simp
  next
    case False
    obtain x m1 where s: "splitAt (int ?lo) m = (x, m1)" by force
    obtain y m2 where e: "splitAt (int ?hi) m1 = (y, m2)" by force
    note ts = two_splits[OF inv s e lohi]
    have xy: "x \<le> y"
    proof (rule ccontr)
      assume "\<not> x \<le> y"
      then have "y \<le> x" by simp
      from pre_mono[OF this, of "runs m2"] ts False show False by simp
    qed
    have "m_text (deleteRange a b m)
            = concat (map r_text (take x (runs m2))) @ concat (map r_text (drop y (runs m2)))"
      using False s e xy by (simp add: deleteRange_unfold concat_mergeLoop)
    then show ?thesis by (simp add: concat_take_pre concat_drop_pre ts)
  qed
qed

lemma mergeLoop_append: "mergeLoop (xs @ ys) out = mergeLoop ys (mergeLoop xs out)"
  by (induction xs arbitrary: out) auto

lemma mergeLoop_split_run:
  "mergeLoop (r\<lparr>r_text := take k (r_text r)\<rparr> # r\<lparr>r_text := drop k (r_text r)\<rparr> # ys) out
     = mergeLoop (r # ys) out"
  by (simp add: sameStyle_def)

lemma splitAt_mergeLoop:
  assumes h: "splitAt idx m = (a, m')"
  shows "mergeLoop (runs m') [] = mergeLoop (runs m) []"
  using splitAt_cases[OF h]
proof (elim disjE exE conjE)
  fix i off
  assume i: "i < length (runs m)"
    and m': "m' = m\<lparr>runs := take i (runs m) @
                   [(runs m ! i)\<lparr>r_text := take off (r_text (runs m ! i))\<rparr>,
                    (runs m ! i)\<lparr>r_text := drop off (r_text (runs m ! i))\<rparr>] @
                   drop (i + 1) (runs m)\<rparr>"
  have "mergeLoop (runs m') [] = mergeLoop (take i (runs m) @ (runs m ! i) # drop (i + 1) (runs m)) []"
    by (simp add: m' mergeLoop_append mergeLoop_split_run del: mergeLoop.simps)
  also have "take i (runs m) @ (runs m ! i) # drop (i + 1) (runs m) = runs m"
    using i by (simp add: id_take_nth_drop[symmetric])
  finally show ?thesis .
qed simp

lemma deleteRange_textInv: "textInv m \<Longrightarrow> textInv (deleteRange a b m)"
  using deleteRange_cases[of a b m] by auto

lemma deleteRange_single_run:
  assumes t: "t \<noteq> []"
  shows "runs (deleteRange 0 (int (length t)) (setText t m)) = []"
proof -
  let ?m = "setText t m"
  have r: "runs ?m = [defaultRun t]" and tx: "m_text ?m = t"
    by (simp_all add: setText_def defaultRun_def)
  have l0: "locate [defaultRun t] 0 = (0, 0)" by (simp add: locate_def)
  have ln: "locate [defaultRun t] (length t) = (0, length t)"
    by (simp add: locate_def defaultRun_def)
  have c0: "clampIndex ?m 0 = 0" and cn: "clampIndex ?m (int (length t)) = length t"
    by (simp_all add: clampIndex_def tx)
  have s0: "splitAt 0 ?m = (0, ?m)"
    by (simp add: splitAt_def c0 l0 r)
  have rt: "r_text (defaultRun t) = t" by (simp add: defaultRun_def)
  have sn: "splitAt (int (length t)) ?m = (1, ?m)"
    using t by (simp add: splitAt_def cn ln r rt)
  have ne: "(0::int) \<noteq> int (length t)" using t by simp
  have mm: "min 0 (int (length t)) = 0" "max 0 (int (length t)) = int (length t)" by simp_all
  show ?thesis
    using t by (simp add: deleteRange_unfold[OF ne] mm c0 cn s0 sn r)
qed

lemma applyMutation_merged:
  assumes "applyMutation x m = Inr m'" and "m' \<noteq> m \<or> noAdjacentSame (runs m)"
  shows "noAdjacentSame (runs m')"
proof -
  have na: "\<And>m3. noAdjacentSame (runs (rebuildText (mergeAdjacent m3)))"
    by (simp add: noAdjacentSame_mergeLoop)
  show ?thesis
  proof (cases x)
    case (SetText s)
    with assms show ?thesis by (auto simp: setText_def)
  next
    case (InsertAt i s st)
    with assms insertAt_cases[of i s st m] na show ?thesis by auto
  next
    case (DeleteRange a b)
    with assms deleteRange_cases[of a b m] na show ?thesis by auto
  next
    case (ApplyStyle a b p tg v)
    with assms applyStyle_cases[of a b p tg v m] na show ?thesis by auto
  qed
qed

lemma applyMutations_merged:
  "noAdjacentSame (runs m) \<Longrightarrow> applyMutations xs m = Inr m' \<Longrightarrow> noAdjacentSame (runs m')"
proof (induction xs arbitrary: m)
  case Nil then show ?case by simp
next
  case (Cons x xs)
  from Cons.prems(2) obtain m1 where x: "applyMutation x m = Inr m1"
    and r: "applyMutations xs m1 = Inr m'"
    by (auto split: sum.splits)
  from applyMutation_merged[OF x] Cons.prems(1) have "noAdjacentSame (runs m1)" by simp
  from Cons.IH[OF this r] show ?case .
qed

section \<open>The claims about the styled buffer\<close>

lemmas buffer_defs = newTextModel_def defaultRun_def rebuildText_def setText_def locate_def
  clampIndex_def splitAt_def sameStyle_def mergeAdjacent_def styleField_def newRun_def
  insertAt_def deleteRange_def applyStyle_def getRunsInRange_def Let_def

text \<open>
  Claim C1.  Whatever sequence of \<open>setText\<close>, \<open>insertAt\<close>, \<open>deleteRange\<close> and
  \<open>applyStyle\<close> calls is applied to a new buffer, no call throws, and in the buffer
  that results the flattened text \<open>text\<close> is the concatenation of the run texts in
  order.  Every prefix of a sequence is a sequence, so this holds after each call.
\<close>

theorem C1_run_texts_concat_to_buffer_text:
  "\<exists>m'. applyMutations xs (newTextModel t) = Inr m'
        \<and> m_text m' = concat (map r_text (runs m'))"
  using applyMutations_textInv[OF textInv_newTextModel, of xs t]
  by (simp add: textInv_def)

text \<open>
  Claim C2.  When a call of \<open>setText\<close>, \<open>insertAt\<close>, \<open>deleteRange\<close> or \<open>applyStyle\<close> on
  any buffer \<open>m\<close> changes the buffer (that is, the call is a mutation and not one of
  the ignored calls, which return the buffer as it was), then in the resulting run
  sequence every two consecutive runs differ in \<open>bold\<close>, \<open>italic\<close>, \<open>underline\<close> or
  \<open>color\<close>.  The same holds after every sequence of such calls on a new buffer,
  ignored calls included.
\<close>

theorem C2_no_adjacent_runs_share_style:
  "(applyMutation x m = Inr m' \<and> m' \<noteq> m \<longrightarrow>
      (\<forall>i. Suc i < length (runs m') \<longrightarrow> \<not> sameStyle (runs m' ! i) (runs m' ! Suc i)))
   \<and> (applyMutations xs (newTextModel t) = Inr m'' \<longrightarrow>
      (\<forall>i. Suc i < length (runs m'') \<longrightarrow> \<not> sameStyle (runs m'' ! i) (runs m'' ! Suc i)))"
proof (intro conjI impI)
  assume "applyMutation x m = Inr m' \<and> m' \<noteq> m"
  then have "noAdjacentSame (runs m')" using applyMutation_merged by blast
  then show "\<forall>i. Suc i < length (runs m') \<longrightarrow> \<not> sameStyle (runs m' ! i) (runs m' ! Suc i)"
    by (simp only: noAdjacentSame_nth)
next
  assume "applyMutations xs (newTextModel t) = Inr m''"
  moreover have "noAdjacentSame (runs (newTextModel t))" by (simp add: newTextModel_def)
  ultimately have "noAdjacentSame (runs m'')" by (rule applyMutations_merged[rotated])
  then show "\<forall>i. Suc i < length (runs m'') \<longrightarrow> \<not> sameStyle (runs m'' ! i) (runs m'' ! Suc i)"
    by (simp only: noAdjacentSame_nth)
qed

text \<open>
  Inserting a bold \<open>x\<close> in the middle of \<open>ab\<close> gives three runs, each differing in
  style from the next.
\<close>

theorem C2_no_adjacent_runs_share_style_witness:
  "applyMutation (InsertAt 1 ''x'' (Some \<lparr>bold = JBool True, italic = JUndefined,
                                           underline = JUndefined, color = JUndefined\<rparr>))
       (newTextModel ''ab'')
     = Inr \<lparr>runs = [defaultRun ''a'', (defaultRun ''x'')\<lparr>bold := JBool True\<rparr>, defaultRun ''b''],
            m_text = ''axb'', version = 1\<rparr>
   \<and> \<lparr>runs = [defaultRun ''a'', (defaultRun ''x'')\<lparr>bold := JBool True\<rparr>, defaultRun ''b''],
       m_text = ''axb'', version = 1\<rparr> \<noteq> newTextModel ''ab''
   \<and> applyMutations [InsertAt 1 ''x'' (Some \<lparr>bold = JBool True, italic = JUndefined,
                                           underline = JUndefined, color = JUndefined\<rparr>)]
       (newTextModel ''ab'')
     = Inr \<lparr>runs = [defaultRun ''a'', (defaultRun ''x'')\<lparr>bold := JBool True\<rparr>, defaultRun ''b''],
            m_text = ''axb'', version = 1\<rparr>
   \<and> \<not> sameStyle (defaultRun ''a'') ((defaultRun ''x'')\<lparr>bold := JBool True\<rparr>)
   \<and> \<not> sameStyle ((defaultRun ''x'')\<lparr>bold := JBool True\<rparr>) (defaultRun ''b'')"
proof -
  let ?m' = "\<lparr>runs = [defaultRun ''a'', (defaultRun ''x'')\<lparr>bold := JBool True\<rparr>, defaultRun ''b''],
              m_text = ''axb'', version = 1\<rparr>"
  let ?x = "InsertAt 1 ''x'' (Some \<lparr>bold = JBool True, italic = JUndefined,
                                   underline = JUndefined, color = JUndefined\<rparr>)"
  have e: "applyMutation ?x (newTextModel ''ab'') = Inr ?m'"
    by (simp add: buffer_defs)
  then have es: "applyMutations [?x] (newTextModel ''ab'') = Inr ?m'" by simp
  have ne: "?m' \<noteq> newTextModel ''ab''" by (simp add: newTextModel_def)
  note T = C2_no_adjacent_runs_share_style[of ?x "newTextModel ''ab''" ?m' "[?x]" "''ab''" ?m']
  from T e ne
  have a: "\<forall>i. Suc i < length (runs ?m') \<longrightarrow> \<not> sameStyle (runs ?m' ! i) (runs ?m' ! Suc i)"
    by blast
  from T es
  have b: "\<forall>i. Suc i < length (runs ?m') \<longrightarrow> \<not> sameStyle (runs ?m' ! i) (runs ?m' ! Suc i)"
    by blast
  from a[rule_format, of 0] b[rule_format, of 1] e es ne show ?thesis by simp
qed

text \<open>
  Claim C3 says that \<open>getRunsInRange(a,b)\<close> leaves the runs array as it was.  On the
  one-run buffer \<open>abcdef\<close>, \<open>getRunsInRange(1,4)\<close> returns the run \<open>bcd\<close> and leaves
  three runs in the buffer: \<open>_splitAt\<close> works on \<open>this.runs\<close>.
\<close>

theorem C3_getRunsInRange_splits_runs_counterexample:
  "getRunsInRange 1 4 (newTextModel ''abcdef'')
     = ([defaultRun ''bcd''],
        \<lparr>runs = [defaultRun ''a'', defaultRun ''bcd'', defaultRun ''ef''],
         m_text = ''abcdef'', version = 0\<rparr>)
   \<and> length (runs (newTextModel ''abcdef'')) = 1
   \<and> length (runs (snd (getRunsInRange 1 4 (newTextModel ''abcdef'')))) = 3
   \<and> runs (snd (getRunsInRange 1 4 (newTextModel ''abcdef''))) \<noteq> runs (newTextModel ''abcdef'')"
  by (simp add: buffer_defs)

text \<open>
  Claim C3, amended.  \<open>getRunsInRange(a,b)\<close> leaves the flattened text, the version
  counter and the concatenation of the run texts unchanged; it may split the run
  that contains \<open>a\<close> and the run that contains \<open>b\<close> in two runs of the same style, so
  the run sequence grows by at most two runs and merges back to what the old one
  merges to.  When the text is the concatenation of the runs and \<open>a \<le> b\<close> after
  clamping, the texts of the returned runs make up \<open>text.slice(a, b)\<close>.
\<close>

theorem C3_getRunsInRange_frame:
  assumes h: "getRunsInRange a b m = (rs, m')"
  shows "m_text m' = m_text m \<and> version m' = version m
       \<and> concat (map r_text (runs m')) = concat (map r_text (runs m))
       \<and> mergeLoop (runs m') [] = mergeLoop (runs m) []
       \<and> length (runs m) \<le> length (runs m') \<and> length (runs m') \<le> length (runs m) + 2
       \<and> (textInv m \<and> clampIndex m a \<le> clampIndex m b \<longrightarrow>
            concat (map r_text rs) = slice (m_text m) (clampIndex m a) (clampIndex m b))"
proof -
  obtain x m1 where s: "splitAt (int (clampIndex m a)) m = (x, m1)" by force
  obtain y m2 where e: "splitAt (int (clampIndex m b)) m1 = (y, m2)" by force
  from h s e have m': "m' = m2" and rs: "rs = take (y - x) (drop x (runs m2))"
    by (auto simp: getRunsInRange_def Let_def)
  note f1 = splitAt_frame[OF s] and f2 = splitAt_frame[OF e]
  note l1 = splitAt_length[OF s] and l2 = splitAt_length[OF e]
  have mg: "mergeLoop (runs m2) [] = mergeLoop (runs m) []"
    using splitAt_mergeLoop[OF s] splitAt_mergeLoop[OF e] by simp
  have sl: "concat (map r_text rs) = slice (m_text m) (clampIndex m a) (clampIndex m b)"
    if inv: "textInv m" and le: "clampIndex m a \<le> clampIndex m b"
  proof -
    note ts = two_splits[OF inv s e le]
    let ?R = "runs m2" and ?T = "m_text m"
    show ?thesis
    proof (cases "x \<le> y")
      case True
      then have "take y ?R = take x ?R @ take (y - x) (drop x ?R)"
        by (metis le_add_diff_inverse take_add)
      then have "concat (map r_text (take y ?R))
                   = concat (map r_text (take x ?R)) @ concat (map r_text rs)"
        by (simp add: rs)
      then have "take (clampIndex m b) ?T = take (clampIndex m a) ?T @ concat (map r_text rs)"
        by (simp add: concat_take_pre ts)
      then have "drop (clampIndex m a) (take (clampIndex m b) ?T) = concat (map r_text rs)"
        using clampIndex_le[of m a] by (simp add: min_def)
      then show ?thesis by (simp add: slice_def drop_take)
    next
      case False
      then have "y \<le> x" by simp
      from pre_mono[OF this, of ?R] ts le have "clampIndex m a = clampIndex m b" by simp
      with False show ?thesis by (simp add: rs slice_def)
    qed
  qed
  show ?thesis using f1 f2 l1 l2 mg sl by (simp add: m')
qed

text \<open>The same call on \<open>abcdef\<close>, through the theorem.\<close>

theorem C3_getRunsInRange_frame_witness:
  "getRunsInRange 1 4 (newTextModel ''abcdef'')
     = ([defaultRun ''bcd''],
        \<lparr>runs = [defaultRun ''a'', defaultRun ''bcd'', defaultRun ''ef''],
         m_text = ''abcdef'', version = 0\<rparr>)
   \<and> textInv (newTextModel ''abcdef'')
   \<and> clampIndex (newTextModel ''abcdef'') 1 \<le> clampIndex (newTextModel ''abcdef'') 4
   \<and> concat (map r_text [defaultRun ''bcd'']) = slice ''abcdef'' 1 4"
proof -
  have g: "getRunsInRange 1 4 (newTextModel ''abcdef'')
     = ([defaultRun ''bcd''],
        \<lparr>runs = [defaultRun ''a'', defaultRun ''bcd'', defaultRun ''ef''],
         m_text = ''abcdef'', version = 0\<rparr>)"
    by (simp add: buffer_defs)
  have i: "textInv (newTextModel ''abcdef'')" by simp
  have c: "clampIndex (newTextModel ''abcdef'') 1 = 1" "clampIndex (newTextModel ''abcdef'') 4 = 4"
    "m_text (newTextModel ''abcdef'') = ''abcdef''"
    by (simp_all add: clampIndex_def newTextModel_def)
  from C3_getRunsInRange_frame[OF g] i c g show ?thesis by simp
qed


text \<open>
  Claim C8 says that \<open>deleteRange(0, n)\<close> leaves exactly one run, with empty text.  On
  the buffer \<open>abc\<close> it leaves no run at all.
\<close>

theorem C8_deleteRange_all_leaves_no_run_counterexample:
  "length (m_text (newTextModel ''abc'')) = 3
   \<and> deleteRange 0 3 (newTextModel ''abc'') = \<lparr>runs = [], m_text = [], version = 1\<rparr>
   \<and> length (runs (deleteRange 0 3 (newTextModel ''abc''))) \<noteq> 1"
  by (simp add: buffer_defs)

text \<open>
  Claim C8, amended.  For a buffer whose text is the concatenation of its runs and
  has length \<open>n\<close>: \<open>insertAt(0, s, style)\<close> gives the text \<open>s\<close> followed by the old
  text, \<open>insertAt(n, s, style)\<close> the old text followed by \<open>s\<close>, and
  \<open>deleteRange(0, n)\<close> leaves the flattened text empty and no run that holds text:
  the runs that remain, if any, have empty text, and a buffer that \<open>setText\<close> filled
  with a non-empty string is left with an empty run sequence.
\<close>

theorem C8_insert_at_ends_and_delete_all:
  assumes inv: "textInv m" and n: "n = int (length (m_text m))"
  shows "m_text (insertAt 0 s st m) = s @ m_text m
       \<and> m_text (insertAt n s st m) = m_text m @ s
       \<and> m_text (deleteRange 0 n m) = []
       \<and> (\<forall>r \<in> set (runs (deleteRange 0 n m)). r_text r = [])
       \<and> (t \<noteq> [] \<longrightarrow> runs (deleteRange 0 (int (length t)) (setText t m)) = [])"
proof -
  have c0: "clampIndex m 0 = 0" and cn: "clampIndex m n = length (m_text m)"
    by (simp_all add: clampIndex_def n)
  have i0: "m_text (insertAt 0 s st m) = s @ m_text m"
    by (simp add: insertAt_text[OF inv] c0)
  have i1: "m_text (insertAt n s st m) = m_text m @ s"
    by (simp add: insertAt_text[OF inv] cn)
  have "min 0 n = 0" "max 0 n = n" by (simp_all add: n)
  then have d: "m_text (deleteRange 0 n m) = []"
    by (simp add: deleteRange_text[OF inv] c0 cn)
  from deleteRange_textInv[OF inv, of 0 n] d
  have "concat (map r_text (runs (deleteRange 0 n m))) = []" by (simp add: textInv_def)
  then have e: "\<forall>r \<in> set (runs (deleteRange 0 n m)). r_text r = []" by simp
  have st: "runs (deleteRange 0 (int (length t)) (setText t m)) = []" if "t \<noteq> []"
    using that by (rule deleteRange_single_run)
  show ?thesis using i0 i1 d e st by simp
qed

text \<open>The buffer \<open>abc\<close>, with \<open>xy\<close> inserted at both ends.\<close>

theorem C8_insert_at_ends_and_delete_all_witness:
  "textInv (newTextModel ''abc'') \<and> (3::int) = int (length (m_text (newTextModel ''abc'')))
   \<and> m_text (insertAt 0 ''xy'' None (newTextModel ''abc'')) = ''xyabc''
   \<and> m_text (insertAt 3 ''xy'' None (newTextModel ''abc'')) = ''abcxy''
   \<and> m_text (deleteRange 0 3 (newTextModel ''abc'')) = []
   \<and> ''abc'' \<noteq> []
   \<and> runs (deleteRange 0 (int (length ''abc'')) (setText ''abc'' (newTextModel ''abc''))) = []"
proof -
  have inv: "textInv (newTextModel ''abc'')" by simp
  have n: "(3::int) = int (length (m_text (newTextModel ''abc'')))" by (simp add: newTextModel_def)
  have tx: "m_text (newTextModel ''abc'') = ''abc''" by (simp add: newTextModel_def)
  from C8_insert_at_ends_and_delete_all[OF inv n, of "''xy''" None "''abc''"] inv
  show ?thesis by (simp add: tx)
qed

text \<open>
  Claim C9 says that offsets are clamped into \<open>[0, length]\<close> and that an empty style
  range is ignored, the version counter included.  \<open>applyStyle(5, 9, 'bold')\<close> on the
  buffer \<open>abc\<close> has both offsets clamped to 3, an empty range, and still raises the
  version counter from 0 to 1; \<open>deleteRange(5, 9)\<close>, which tests \<open>end <= start\<close> after
  clamping, returns the buffer as it was.
\<close>

theorem C9_applyStyle_empty_clamped_range_bumps_version:
  "clampIndex (newTextModel ''abc'') 5 = 3 \<and> clampIndex (newTextModel ''abc'') 9 = 3
   \<and> applyStyle 5 9 Bold True (JBool True) (newTextModel ''abc'')
        = Inr \<lparr>runs = [defaultRun ''abc''], m_text = ''abc'', version = 1\<rparr>
   \<and> version (newTextModel ''abc'') = 0
   \<and> deleteRange 5 9 (newTextModel ''abc'') = newTextModel ''abc''"
  by (simp add: buffer_defs styleLoop.simps)

section \<open>The claims about the edit controller\<close>

lemma typeText_history:
  "history (typeText s c) = history (pushHistory c)"
  "redoStack (typeText s c) = []"
  "historyLimit (typeText s c) = historyLimit c"
  by (simp_all add: typeText_def pushHistory_def Let_def)

lemma pushHistory_last:
  assumes "0 < historyLimit c"
  shows "history (pushHistory c) \<noteq> [] \<and> last (history (pushHistory c)) = snapshot c"
proof (cases "history c")
  case Nil
  with assms show ?thesis by (simp add: pushHistory_def Let_def)
next
  case (Cons a h)
  then show ?thesis by (simp add: pushHistory_def Let_def)
qed

lemma m_text_setText [simp]: "m_text (setText s m) = s"
  by (simp add: setText_def defaultRun_def)

lemma restore_fields:
  "m_text (textModel (restore st c)) = s_text st"
  "anchor (selection (restore st c)) = s_a st"
  "head (selection (restore st c)) = s_h st"
  "history (restore st c) = history c"
  "redoStack (restore st c) = redoStack c"
  by (simp_all add: restore_def)

lemma snapshot_restore: "snapshot (restore st c) = st"
  by (simp add: snapshot_def restore_fields)

lemma undo_after_push:
  assumes h: "history c \<noteq> []"
  shows "snapshot (undo c) = last (history c)"
    "history (undo c) = butlast (history c)"
    "redoStack (undo c) = redoStack c @ [snapshot c]"
  using h by (simp_all add: undo_def Let_def snapshot_restore restore_fields)

lemma redo_after_undo:
  assumes h: "redoStack c \<noteq> []"
  shows "snapshot (redo c) = last (redoStack c)"
    "history (redo c) = history c @ [snapshot c]"
    "redoStack (redo c) = butlast (redoStack c)"
  using h by (simp_all add: redo_def Let_def snapshot_restore restore_fields)

text \<open>
  Claim C7.  From any state of a control whose history limit is at least 1 (the
  constructor sets 200 and no code changes it), after three \<open>typeText\<close> calls one
  \<open>undo()\<close> gives back the buffer text and the selection (anchor and head) that held
  after the first two, and a following \<open>redo()\<close> gives back the text and selection
  that the third produced.  \<open>undo\<close> takes the newest history entry and pushes the
  state before the undo on the redo array; \<open>redo\<close> takes the newest redo entry and
  pushes the state before the redo on the history array.
\<close>

theorem C7_undo_redo_after_three_edits:
  assumes lim: "0 < historyLimit c"
  shows "let c2 = typeText sb (typeText sa c);
             c3 = typeText sc c2;
             u = undo c3;
             r = redo u
         in m_text (textModel u) = m_text (textModel c2)
          \<and> anchor (selection u) = anchor (selection c2)
          \<and> head (selection u) = head (selection c2)
          \<and> m_text (textModel r) = m_text (textModel c3)
          \<and> anchor (selection r) = anchor (selection c3)
          \<and> head (selection r) = head (selection c3)
          \<and> redoStack u = [snapshot c3]
          \<and> history u = butlast (history c3)
          \<and> history r = history u @ [snapshot u]
          \<and> history r = history c3
          \<and> redoStack r = []"
proof -
  define c2 where "c2 = typeText sb (typeText sa c)"
  define c3 where "c3 = typeText sc c2"
  define u where "u = undo c3"
  define r where "r = redo u"
  have lim2: "0 < historyLimit c2" using lim by (simp add: c2_def typeText_history)
  from pushHistory_last[OF lim2]
  have h3: "history c3 \<noteq> []" "last (history c3) = snapshot c2"
    by (simp_all add: c3_def typeText_history)
  have r3: "redoStack c3 = []" by (simp add: c3_def typeText_history)
  have su: "snapshot u = snapshot c2" "history u = butlast (history c3)"
    "redoStack u = [snapshot c3]"
    using undo_after_push[OF h3(1)] h3(2) r3 by (simp_all add: u_def)
  have ru: "redoStack u \<noteq> []" by (simp add: su)
  have bl: "butlast (history c3) @ [snapshot c2] = history c3"
    using h3 append_butlast_last_id[of "history c3"] by simp
  have sr: "snapshot r = snapshot c3" "history r = history c3" "redoStack r = []"
    using redo_after_undo[OF ru] su bl by (simp_all add: r_def)
  from su(1) sr(1) have
    "m_text (textModel u) = m_text (textModel c2)" "anchor (selection u) = anchor (selection c2)"
    "head (selection u) = head (selection c2)"
    "m_text (textModel r) = m_text (textModel c3)" "anchor (selection r) = anchor (selection c3)"
    "head (selection r) = head (selection c3)"
    by (simp_all add: snapshot_def)
  moreover have "history r = history u @ [snapshot u]"
    using su sr bl by simp
  ultimately show ?thesis using su sr
    unfolding c2_def[symmetric] c3_def[symmetric] u_def[symmetric] r_def[symmetric] Let_def
    by (simp add: c2_def[symmetric] c3_def[symmetric] u_def[symmetric] r_def[symmetric])
qed


text \<open>Typing \<open>a\<close>, \<open>b\<close>, \<open>c\<close> into a new control, then undo and redo.\<close>

theorem C7_undo_redo_after_three_edits_witness:
  "0 < historyLimit (newTextControl 100)
   \<and> m_text (textModel (undo (typeText ''c'' (typeText ''b'' (typeText ''a'' (newTextControl 100)))))) = ''ab''
   \<and> m_text (textModel (typeText ''b'' (typeText ''a'' (newTextControl 100)))) = ''ab''
   \<and> m_text (textModel (redo (undo (typeText ''c'' (typeText ''b'' (typeText ''a'' (newTextControl 100))))))) = ''abc''"
proof -
  have lim: "0 < historyLimit (newTextControl 100)" by (simp add: newTextControl_def)
  have t2: "m_text (textModel (typeText ''b'' (typeText ''a'' (newTextControl 100)))) = ''ab''"
    by code_simp
  have t3: "m_text (textModel (typeText ''c'' (typeText ''b'' (typeText ''a'' (newTextControl 100))))) = ''abc''"
    by code_simp
  from C7_undo_redo_after_three_edits[OF lim, where sa = "''a''" and sb = "''b''" and sc = "''c''"] lim t2 t3
  show ?thesis by (simp add: Let_def)
qed

text \<open>
  Claim C10 says that \<open>typeText("")\<close> leaves the buffer text, runs and version
  unchanged.  With the text \<open>abc\<close> and the selection from 0 to 2 it deletes the
  selected \<open>ab\<close>: the text becomes \<open>c\<close> and the version 1.
\<close>

theorem C10_typeText_empty_deletes_selection_counterexample:
  "m_text (textModel ((newTextControl 100)\<lparr>textModel := newTextModel ''abc'',
                                             selection := \<lparr>anchor = 0, head = 2\<rparr>\<rparr>)) = ''abc''
   \<and> textModel (typeText [] ((newTextControl 100)\<lparr>textModel := newTextModel ''abc'',
                                             selection := \<lparr>anchor = 0, head = 2\<rparr>\<rparr>))
       = \<lparr>runs = [defaultRun ''c''], m_text = ''c'', version = 1\<rparr>
   \<and> textModel (typeText [] ((newTextControl 100)\<lparr>textModel := newTextModel ''abc'',
                                             selection := \<lparr>anchor = 0, head = 2\<rparr>\<rparr>))
       \<noteq> textModel ((newTextControl 100)\<lparr>textModel := newTextModel ''abc'',
                                             selection := \<lparr>anchor = 0, head = 2\<rparr>\<rparr>)"
  by code_simp

text \<open>
  Claim C10, amended.  \<open>typeText(s)\<close> pushes a history snapshot and empties the redo
  array before it looks at the edit: for the empty string and an empty selection
  (anchor equal to head) the buffer (text, runs, version) and the selection are left
  as they were, the snapshot is pushed on the history array (whose oldest entry is
  dropped when the array exceeds the limit), and the redo array is emptied.
\<close>

theorem C10_typeText_empty_string:
  assumes "sel_empty (selection c)"
  shows "typeText [] c = pushHistory c
       \<and> textModel (typeText [] c) = textModel c
       \<and> selection (typeText [] c) = selection c
       \<and> redoStack (typeText [] c) = []
       \<and> history (typeText [] c)
           = (if length (history c) + 1 > historyLimit c then tl (history c @ [snapshot c])
              else history c @ [snapshot c])"
  using assms
  by (simp add: typeText_def pushHistory_def Let_def insertAt_def sel_empty_def sel_start_def collapseTo_def)

text \<open>An empty paste at caret 1 of \<open>abc\<close>, with one entry on the redo array.\<close>

theorem C10_typeText_empty_string_witness:
  "sel_empty (selection ((newTextControl 100)\<lparr>textModel := newTextModel ''abc'',
        selection := \<lparr>anchor = 1, head = 1\<rparr>,
        redoStack := [\<lparr>s_text = ''ab'', s_a = 0, s_h = 0\<rparr>]\<rparr>))
   \<and> textModel (typeText [] ((newTextControl 100)\<lparr>textModel := newTextModel ''abc'',
        selection := \<lparr>anchor = 1, head = 1\<rparr>,
        redoStack := [\<lparr>s_text = ''ab'', s_a = 0, s_h = 0\<rparr>]\<rparr>)) = newTextModel ''abc''
   \<and> redoStack (typeText [] ((newTextControl 100)\<lparr>textModel := newTextModel ''abc'',
        selection := \<lparr>anchor = 1, head = 1\<rparr>,
        redoStack := [\<lparr>s_text = ''ab'', s_a = 0, s_h = 0\<rparr>]\<rparr>)) = []
   \<and> history (typeText [] ((newTextControl 100)\<lparr>textModel := newTextModel ''abc'',
        selection := \<lparr>anchor = 1, head = 1\<rparr>,
        redoStack := [\<lparr>s_text = ''ab'', s_a = 0, s_h = 0\<rparr>]\<rparr>))
       = [\<lparr>s_text = ''abc'', s_a = 1, s_h = 1\<rparr>]"
proof -
  let ?c = "(newTextControl 100)\<lparr>textModel := newTextModel ''abc'',
        selection := \<lparr>anchor = 1, head = 1\<rparr>,
        redoStack := [\<lparr>s_text = ''ab'', s_a = 0, s_h = 0\<rparr>]\<rparr>"
  have e: "sel_empty (selection ?c)" by (simp add: sel_empty_def)
  from C10_typeText_empty_string[OF e] e show ?thesis
    by (simp add: newTextControl_def snapshot_def newTextModel_def pushHistory_def Let_def)
qed


section \<open>Properties of the layout engine\<close>

subsection \<open>Paragraphs, one wrapping step, and the line table\<close>

lemma splitNewline_nonempty [simp]: "splitNewline t \<noteq> []"
  by (induction t) (auto split: list.splits)

lemma joinNewline_Cons: "ps \<noteq> [] \<Longrightarrow> joinNewline (p # ps) = p @ [CHR 0x0A] @ joinNewline ps"
  by (cases ps) simp_all

lemma joinNewline_splitNewline: "joinNewline (splitNewline t) = t"
proof (induction t)
  case Nil then show ?case by simp
next
  case (Cons ch cs)
  show ?case
  proof (cases "ch = CHR 0x0A")
    case True
    with Cons show ?thesis by (simp add: joinNewline_Cons)
  next
    case False
    obtain p ps where s: "splitNewline cs = p # ps" by (cases "splitNewline cs") auto
    with Cons have "joinNewline (p # ps) = cs" by simp
    then have "joinNewline ((ch # p) # ps) = ch # cs" by (cases ps) auto
    with False s show ?thesis by simp
  qed
qed

lemma fst_cutText_prefix: "\<exists>k. fst (cutText ms rest W) = take k rest"
proof -
  have "rest = take (length rest) rest" by simp
  moreover have "[] = take 0 rest" by simp
  ultimately show ?thesis
    by (auto simp: cutText_def Let_def intro: exI[of _ 0] exI[of _ "length rest"])
qed

lemma prefix_append_drop: "first = take k rest \<Longrightarrow> first @ drop (length first) rest = rest"
  by (cases "k \<le> length rest") (simp_all add: min_def)

lemma wrapStep_nothing_fits:
  "fst (cutText ms rest W) = [] \<Longrightarrow> wrapStep ms c W rest = (take 1 rest, drop 1 rest)"
  by (simp add: wrapStep_def)

lemma wrapStep_word_break:
  "fst (cutText ms rest W) = first \<Longrightarrow> first \<noteq> [] \<Longrightarrow> wordWrap c = ''word'' \<Longrightarrow>
   length first < length rest \<Longrightarrow> lastSpace first > 0 \<Longrightarrow>
   wrapStep ms c W rest =
     (take (nat (lastSpace first + 1)) first,
      drop (nat (lastSpace first + 1)) first @ drop (length first) rest)"
  by (simp add: wrapStep_def Let_def)

lemma wrapStep_hyphen:
  "fst (cutText ms rest W) = first \<Longrightarrow> wordWrap c = ''word'' \<Longrightarrow>
   length first < length rest \<Longrightarrow> \<not> lastSpace first > 0 \<Longrightarrow> hyphenate c \<Longrightarrow>
   length first > 1 \<Longrightarrow>
   wrapStep ms c W rest =
     (hyphenTrim ms W (if hyphenChar c = [] then ''-'' else hyphenChar c) first
        @ (if hyphenChar c = [] then ''-'' else hyphenChar c),
      drop (length (hyphenTrim ms W (if hyphenChar c = [] then ''-'' else hyphenChar c) first)) rest)"
  by (cases "first = []") (simp_all add: wrapStep_def Let_def)

lemma wrapStep_cut:
  "fst (cutText ms rest W) = first \<Longrightarrow> first \<noteq> [] \<Longrightarrow>
   \<not> (wordWrap c = ''word'' \<and> length first < length rest
       \<and> (lastSpace first > 0 \<or> hyphenate c \<and> length first > 1)) \<Longrightarrow>
   wrapStep ms c W rest = (first, drop (length first) rest)"
  by (cases "wordWrap c = ''word''"; cases "length first < length rest";
      cases "lastSpace first > 0"; cases "hyphenate c"; cases "length first > 1")
     (simp_all add: wrapStep_def Let_def)

lemma wrapStep_nohyphen:
  assumes nh: "\<not> (wordWrap c = ''word'' \<and> hyphenate c)" and ne: "rest \<noteq> []"
    and st: "wrapStep ms c W rest = (t, rest')"
  shows "t @ rest' = rest \<and> t \<noteq> []"
proof -
  let ?first = "fst (cutText ms rest W)"
  obtain k where k: "?first = take k rest" using fst_cutText_prefix by blast
  have fd: "?first @ drop (length ?first) rest = rest" by (rule prefix_append_drop[OF k])
  show ?thesis
  proof (cases "?first = []")
    case True
    from wrapStep_nothing_fits[OF True, of c] st ne show ?thesis by auto
  next
    case False
    show ?thesis
    proof (cases "wordWrap c = ''word'' \<and> length ?first < length rest \<and> lastSpace ?first > 0")
      case True
      with wrapStep_word_break[OF refl False, of c] st
      have t: "t = take (nat (lastSpace ?first + 1)) ?first"
        and r: "rest' = drop (nat (lastSpace ?first + 1)) ?first @ drop (length ?first) rest"
        by simp_all
      have "t @ rest' = ?first @ drop (length ?first) rest" by (simp add: t r)
      moreover have "t \<noteq> []" using False True by (simp add: t)
      ultimately show ?thesis using fd by simp
    next
      case F2: False
      with nh have "\<not> (wordWrap c = ''word'' \<and> length ?first < length rest
       \<and> (lastSpace ?first > 0 \<or> hyphenate c \<and> length ?first > 1))" by blast
      from wrapStep_cut[OF refl False this] st fd False show ?thesis by auto
    qed
  qed
qed

lemma lineSource_fresh: "fresh L \<Longrightarrow> lineSource L = l_text L"
  by (simp add: lineSource_def fresh_def)

lemma slice_append_left: "b \<le> length T \<Longrightarrow> slice (T @ X) a b = slice T a b"
  by (simp add: slice_def)

lemma linesMatch_snoc:
  assumes G: "linesMatch lines T"
  shows "linesMatch (lines @ [\<lparr>l_text = t, l_start = length T, l_end = length T + length t\<rparr>]) (T @ t)"
proof -
  let ?L = "\<lparr>l_text = t, l_start = length T, l_end = length T + length t\<rparr>"
  have f: "lineSource ?L = t" by (simp add: lineSource_def)
  have "slice (T @ t) (l_start ?L) (l_end ?L) = t" by (simp add: slice_def)
  with G f show ?thesis by (auto simp: linesMatch_def slice_append_left)
qed

lemma wrapLoop_match:
  "\<not> (wordWrap c = ''word'' \<and> hyphenate c) \<Longrightarrow>
   linesMatch lines T \<Longrightarrow> offset = length T \<Longrightarrow>
   rest \<noteq> [] \<or> (lines \<noteq> [] \<and> fresh (last lines) \<and> l_end (last lines) = length T) \<Longrightarrow>
   wrapLoop ms c W rest offset lines = (lines1, offset1) \<Longrightarrow>
   linesMatch lines1 (T @ rest) \<and> offset1 = length T + length rest \<and> lines1 \<noteq> []
     \<and> fresh (last lines1) \<and> l_end (last lines1) = length (T @ rest)"
proof (induction ms c W rest offset lines arbitrary: T rule: wrapLoop.induct)
  case (1 ms c W rest offset lines)
  note nh = "1.prems"(1) and G = "1.prems"(2) and off = "1.prems"(3)
  show ?case
  proof (cases "rest = []")
    case True
    with "1.prems" show ?thesis by (simp add: wrapLoop.simps)
  next
    case False
    obtain t rest' where st: "wrapStep ms c W rest = (t, rest')" by force
    from wrapStep_nohyphen[OF nh False st] have tr: "t @ rest' = rest" "t \<noteq> []" by simp_all
    let ?L = "\<lparr>l_text = t, l_start = offset, l_end = offset + length t\<rparr>"
    have G': "linesMatch (lines @ [?L]) (T @ t)"
      using linesMatch_snoc[OF G, of t] off by simp
    have o': "offset + length t = length (T @ t)" using off by simp
    have l': "rest' \<noteq> [] \<or> (lines @ [?L] \<noteq> [] \<and> fresh (last (lines @ [?L]))
                \<and> l_end (last (lines @ [?L])) = length (T @ t))"
      using off by (simp add: fresh_def)
    have w: "wrapLoop ms c W rest' (offset + length t) (lines @ [?L]) = (lines1, offset1)"
      using "1.prems"(5) False st by (subst (asm) wrapLoop.simps) simp
    have "linesMatch lines1 ((T @ t) @ rest') \<and> offset1 = length (T @ t) + length rest'
            \<and> lines1 \<noteq> [] \<and> fresh (last lines1) \<and> l_end (last lines1) = length ((T @ t) @ rest')"
      by (rule "1.IH"[OF False st[symmetric] refl nh G' o' l' w])
    moreover have "(T @ t) @ rest' = T @ rest" using tr(1) by simp
    moreover have "length (T @ t) + length rest' = length T + length rest"
      using tr(1)[symmetric] by simp
    ultimately show ?thesis by simp
  qed
qed


lemma layoutParagraph_match:
  assumes nh: "\<not> (wrap c \<and> wordWrap c = ''word'' \<and> hyphenate c)"
    and G: "linesMatch lines T"
    and lp: "layoutParagraph ms c W p (length T) lines = (lines1, offset1)"
  shows "linesMatch lines1 (T @ p) \<and> offset1 = length T + length p \<and> lines1 \<noteq> []
           \<and> fresh (last lines1) \<and> l_end (last lines1) = length (T @ p)"
proof (cases "p = [] \<or> \<not> wrap c")
  case True
  then have "lines1 = lines @ [\<lparr>l_text = p, l_start = length T, l_end = length T + length p\<rparr>]"
    "offset1 = length T + length p"
    using lp by (auto simp: layoutParagraph_def split: if_splits)
  with linesMatch_snoc[OF G, of p] show ?thesis by (simp add: fresh_def)
next
  case False
  then have w: "wrapLoop ms c W p (length T) lines = (lines1, offset1)"
    using lp by (simp add: layoutParagraph_def)
  from False nh have nh': "\<not> (wordWrap c = ''word'' \<and> hyphenate c)" by simp
  from False have "p \<noteq> [] \<or> (lines \<noteq> [] \<and> fresh (last lines) \<and> l_end (last lines) = length T)"
    by simp
  from wrapLoop_match[OF nh' G refl this w] show ?thesis .
qed

lemma linesMatch_bumpLast:
  assumes G: "linesMatch lines T" and ne: "lines \<noteq> []" and fr: "fresh (last lines)"
    and le: "l_end (last lines) = length T"
  shows "\<exists>lines2. bumpLast lines = Inr lines2 \<and> linesMatch lines2 (T @ [CHR 0x0A])"
proof -
  let ?L = "last lines" and ?B = "butlast lines"
  let ?L' = "?L\<lparr>l_end := Suc (l_end ?L)\<rparr>"
  have sp: "lines = ?B @ [?L]" using ne by simp
  have src: "lineSource ?L = l_text ?L" using fr by (rule lineSource_fresh)
  have src': "lineSource ?L' = l_text ?L @ [CHR 0x0A]"
    using fr by (simp add: lineSource_def fresh_def)
  have Lin: "?L \<in> set lines" using ne by simp
  with G have sl: "slice T (l_start ?L) (l_end ?L) = l_text ?L"
    by (simp add: linesMatch_def src)
  have st: "l_start ?L \<le> length T" using fr le by (simp add: fresh_def)
  have d: "drop (l_start ?L) T = l_text ?L" using sl le by (simp add: slice_def)
  have "slice (T @ [CHR 0x0A]) (l_start ?L) (Suc (length T)) = drop (l_start ?L) T @ [CHR 0x0A]"
    using st by (simp add: slice_def Suc_diff_le)
  moreover have e': "l_end ?L' = Suc (length T)" using le by simp
  ultimately have sl': "slice (T @ [CHR 0x0A]) (l_start ?L') (l_end ?L') = lineSource ?L'"
    unfolding e' src' by (simp add: d)
  have c: "concat (map lineSource ?B) @ l_text ?L = T"
  proof -
    have "concat (map lineSource lines) = concat (map lineSource ?B) @ lineSource ?L"
      by (subst sp) simp
    with G src show ?thesis by (simp add: linesMatch_def)
  qed
  have old: "\<forall>L \<in> set ?B. l_end L \<le> length (T @ [CHR 0x0A])
               \<and> slice (T @ [CHR 0x0A]) (l_start L) (l_end L) = lineSource L"
  proof
    fix L assume "L \<in> set ?B"
    then have "L \<in> set lines" by (rule in_set_butlastD)
    with G have "l_end L \<le> length T" "slice T (l_start L) (l_end L) = lineSource L"
      by (simp_all add: linesMatch_def)
    then show "l_end L \<le> length (T @ [CHR 0x0A])
               \<and> slice (T @ [CHR 0x0A]) (l_start L) (l_end L) = lineSource L"
      by (simp add: slice_append_left)
  qed
  have "linesMatch (?B @ [?L']) (T @ [CHR 0x0A])"
    unfolding linesMatch_def
  proof (intro conjI ballI)
    show "concat (map lineSource (?B @ [?L'])) = T @ [CHR 0x0A]"
      using c by (simp add: src')
  next
    fix L assume "L \<in> set (?B @ [?L'])"
    then consider "L \<in> set ?B" | "L = ?L'" by auto
    then show "l_end L \<le> length (T @ [CHR 0x0A])"
      using old e' by cases auto
  next
    fix L assume "L \<in> set (?B @ [?L'])"
    then consider "L \<in> set ?B" | "L = ?L'" by auto
    then show "slice (T @ [CHR 0x0A]) (l_start L) (l_end L) = lineSource L"
      using old sl' by cases auto
  qed
  then show ?thesis using ne by (simp add: bumpLast_def)
qed

lemma paragraphLoop_match:
  "\<not> (wrap c \<and> wordWrap c = ''word'' \<and> hyphenate c) \<Longrightarrow> linesMatch lines T \<Longrightarrow> ps \<noteq> [] \<Longrightarrow>
   \<exists>lines'. paragraphLoop ms c W ps (length T) lines = Inr lines'
              \<and> linesMatch lines' (T @ joinNewline ps)"
proof (induction ps arbitrary: lines T)
  case Nil then show ?case by simp
next
  case (Cons p ps)
  obtain lines1 offset1 where lp: "layoutParagraph ms c W p (length T) lines = (lines1, offset1)"
    by force
  note m = layoutParagraph_match[OF Cons.prems(1) Cons.prems(2) lp]
  show ?case
  proof (cases "ps = []")
    case True
    with lp m show ?thesis by simp
  next
    case False
    from m linesMatch_bumpLast[of lines1 "T @ p"] obtain lines2 where
      b: "bumpLast lines1 = Inr lines2" and G2: "linesMatch lines2 ((T @ p) @ [CHR 0x0A])"
      by blast
    from Cons.IH[OF Cons.prems(1) G2 False] obtain lines' where
      r: "paragraphLoop ms c W ps (length ((T @ p) @ [CHR 0x0A])) lines2 = Inr lines'"
      and G': "linesMatch lines' (((T @ p) @ [CHR 0x0A]) @ joinNewline ps)" by blast
    have o: "offset1 + 1 = length ((T @ p) @ [CHR 0x0A])" using m by simp
    have "paragraphLoop ms c W (p # ps) (length T) lines = Inr lines'"
      using lp False b r o by simp
    moreover have "((T @ p) @ [CHR 0x0A]) @ joinNewline ps = T @ joinNewline (p # ps)"
      using False by (simp add: joinNewline_Cons)
    ultimately show ?thesis using G' by simp
  qed
qed

lemma linesMatch_Nil: "linesMatch [] []"
  by (simp add: linesMatch_def)

lemma ensure_miss:
  "\<not> cacheHit c l \<Longrightarrow>
   ensure ms c l =
     (case paragraphLoop ms c (max 0 (innerWidth c l)) (splitNewline (m_text (textModel c))) 0 [] of
        Inl e \<Rightarrow> Inl e
      | Inr lines \<Rightarrow>
          Inr (\<lparr>c_version = version (textModel c), c_width = max 0 (innerWidth c l), c_lines = lines\<rparr>,
               l\<lparr>cache := Some \<lparr>c_version = version (textModel c),
                                 c_width = max 0 (innerWidth c l), c_lines = lines\<rparr>\<rparr>))"
  by (simp add: ensure_def Let_def split: sum.splits)

subsection \<open>The layout never throws; the cache test\<close>

lemma wrapLoop_nonempty:
  "rest \<noteq> [] \<or> lines \<noteq> [] \<Longrightarrow> fst (wrapLoop ms c W rest offset lines) \<noteq> []"
proof (induction ms c W rest offset lines rule: wrapLoop.induct)
  case (1 ms c W rest offset lines)
  show ?case
  proof (cases "rest = []")
    case True
    with "1.prems" show ?thesis by (simp add: wrapLoop.simps)
  next
    case False
    obtain t rest' where st: "wrapStep ms c W rest = (t, rest')" by force
    have "fst (wrapLoop ms c W rest' (offset + length t)
             (lines @ [\<lparr>l_text = t, l_start = offset, l_end = offset + length t\<rparr>])) \<noteq> []"
      by (rule "1.IH"[OF False st[symmetric] refl]) simp
    with False st show ?thesis by (subst wrapLoop.simps) simp
  qed
qed

lemma layoutParagraph_nonempty: "fst (layoutParagraph ms c W p offset lines) \<noteq> []"
  by (simp add: layoutParagraph_def wrapLoop_nonempty)

lemma paragraphLoop_total: "\<exists>lines'. paragraphLoop ms c W ps offset lines = Inr lines'"
proof (induction ps arbitrary: offset lines)
  case Nil then show ?case by simp
next
  case (Cons p ps)
  obtain lines1 offset1 where lp: "layoutParagraph ms c W p offset lines = (lines1, offset1)"
    by force
  with layoutParagraph_nonempty[of ms c W p offset lines] have ne: "lines1 \<noteq> []" by simp
  then obtain lines2 where b: "bumpLast lines1 = Inr lines2" by (simp add: bumpLast_def)
  from Cons.IH[of "offset1 + 1" lines2] Cons.IH[of offset1 lines1] lp b
  show ?case by (cases "ps = []") auto
qed

lemma cacheHit_iff:
  "cacheHit c l \<longleftrightarrow>
     (\<exists>ch. cache l = Some ch \<and> c_version ch = version (textModel c)
            \<and> c_width ch = max 0 (innerWidth c l))"
  by (simp add: cacheHit_def split: option.splits)

lemma ensure_hit: "cacheHit c l \<Longrightarrow> ensure ms c l = Inr (the (cache l), l)"
  by (simp add: ensure_def Let_def)

subsection \<open>A measurement in which exactly \<open>n\<close> characters fit\<close>

lemma cutLoop_fits:
  "(\<forall>s. ms s \<le> W \<longleftrightarrow> length s \<le> n) \<Longrightarrow> lo \<le> n \<Longrightarrow> n \<le> hi \<Longrightarrow> hi \<le> length str \<Longrightarrow>
   cutLoop ms str W lo hi = n"
proof (induction ms str W lo hi rule: cutLoop.induct)
  case (1 ms str w lo hi)
  show ?case
  proof (cases "lo < hi")
    case False
    with "1.prems" show ?thesis by (simp add: cutLoop.simps)
  next
    case True
    let ?mid = "(lo + hi + 1) div 2"
    have mid: "lo < ?mid" "?mid \<le> hi" using True by auto
    then have len: "length (take ?mid str) = ?mid" using "1.prems"(4) by simp
    show ?thesis
    proof (cases "ms (take ?mid str) \<le> w")
      case fit: True
      with "1.prems"(1) len have "?mid \<le> n" by metis
      from "1.IH"(1)[OF True refl fit "1.prems"(1) this "1.prems"(3) "1.prems"(4)] True fit
      show ?thesis by (subst cutLoop.simps) (simp add: Let_def)
    next
      case nofit: False
      with "1.prems"(1) len have "n < ?mid" by (metis not_le)
      then have "n \<le> ?mid - 1" by simp
      moreover have "?mid - 1 \<le> length str" using mid "1.prems"(4) by simp
      ultimately have "cutLoop ms str w lo (?mid - 1) = n"
        using "1.IH"(2)[OF True refl nofit "1.prems"(1) "1.prems"(2)] by simp
      with True nofit show ?thesis by (subst cutLoop.simps) (simp add: Let_def)
    qed
  qed
qed

lemma cutText_fits:
  assumes W: "0 < W" and fits: "\<forall>s. ms s \<le> W \<longleftrightarrow> length s \<le> n"
  shows "cutText ms str W = (take n str, drop n str)"
proof (cases "str = [] \<or> ms str \<le> W")
  case True
  with fits have "str = [] \<or> length str \<le> n" by auto
  with True W show ?thesis by (auto simp: cutText_def)
next
  case False
  with fits have "n \<le> length str" by (metis nat_le_linear)
  from cutLoop_fits[OF fits _ this, of 0] have "cutLoop ms str W 0 (length str) = n" by simp
  with False W show ?thesis by (simp add: cutText_def)
qed

lemma wrapLoop_prepend:
  "wrapLoop ms c W rest offset (acc @ lines)
     = (acc @ fst (wrapLoop ms c W rest offset lines), snd (wrapLoop ms c W rest offset lines))"
proof (induction ms c W rest offset lines arbitrary: acc rule: wrapLoop.induct)
  case (1 ms c W rest offset lines)
  show ?case
  proof (cases "rest = []")
    case True then show ?thesis by (simp add: wrapLoop.simps)
  next
    case False
    obtain t rest' where st: "wrapStep ms c W rest = (t, rest')" by force
    let ?L = "\<lparr>l_text = t, l_start = offset, l_end = offset + length t\<rparr>"
    have a: "wrapLoop ms c W rest offset (acc @ lines)
               = wrapLoop ms c W rest' (offset + length t) (acc @ (lines @ [?L]))"
      using False st by (subst wrapLoop.simps) simp
    have b: "wrapLoop ms c W rest offset lines
               = wrapLoop ms c W rest' (offset + length t) (lines @ [?L])"
      using False st by (subst wrapLoop.simps) simp
    show ?thesis
      unfolding a b by (rule "1.IH"[OF False st[symmetric] refl])
  qed
qed

lemma wrapLoop_acc:
  "wrapLoop ms c W rest offset lines
     = (lines @ fst (wrapLoop ms c W rest offset []), snd (wrapLoop ms c W rest offset []))"
  using wrapLoop_prepend[of ms c W rest offset lines "[]"] by simp

lemma wrapLoop_step:
  "wrapStep ms c W rest = (t, rest') \<Longrightarrow> rest \<noteq> [] \<Longrightarrow> n = offset + length t \<Longrightarrow>
   wrapLoop ms c W rest offset lines
     = wrapLoop ms c W rest' n (lines @ [\<lparr>l_text = t, l_start = offset, l_end = n\<rparr>])"
  by (subst wrapLoop.simps) simp

lemma paragraphLoop_single:
  "paragraphLoop ms c W [p] offset lines = Inr (fst (layoutParagraph ms c W p offset lines))"
  by (simp add: case_prod_beta)

lemma wrapLoop_done: "wrapLoop ms c W [] offset lines = (lines, offset)"
  by (simp add: wrapLoop.simps)

lemma lastSpace_ab_cd: "lastSpace ''ab cd'' = 2"
  by (simp add: lastSpace_def isSpace_def)

lemma lastSpace_cdefg: "lastSpace ''cdefg'' = -1"
  by (simp add: lastSpace_def isSpace_def)

lemma lastSpace_abcde: "lastSpace ''abcde'' = -1"
  by (simp add: lastSpace_def isSpace_def)

lemma scenario_first_step:
  assumes W: "0 < W" and fits: "\<forall>s. ms s \<le> W \<longleftrightarrow> length s \<le> 5"
    and ww: "wordWrap c = ''word''"
  shows "wrapStep ms c W ''ab cdefgh'' = (''ab '', ''cdefgh'')"
proof -
  have f: "fst (cutText ms ''ab cdefgh'' W) = ''ab cd''"
    by (simp add: cutText_fits[OF W fits])
  show ?thesis using wrapStep_word_break[OF f _ ww] by (simp add: lastSpace_ab_cd)
qed

lemma scenario_rest_steps:
  assumes W: "0 < W" and fits: "\<forall>s. ms s \<le> W \<longleftrightarrow> length s \<le> 5"
    and nh: "\<not> hyphenate c"
  shows "wrapStep ms c W ''cdefgh'' = (''cdefg'', ''h'')"
    and "wrapStep ms c W ''h'' = (''h'', [])"
proof -
  have f: "fst (cutText ms ''cdefgh'' W) = ''cdefg''"
    by (simp add: cutText_fits[OF W fits])
  from wrapStep_cut[OF f, of c] nh show "wrapStep ms c W ''cdefgh'' = (''cdefg'', ''h'')"
    by (simp add: lastSpace_cdefg)
  have g: "fst (cutText ms ''h'' W) = ''h''"
    by (simp add: cutText_fits[OF W fits])
  from wrapStep_cut[OF g, of c] show "wrapStep ms c W ''h'' = (''h'', [])" by simp
qed

section \<open>The claims about the layout engine\<close>

lemmas layout_defs = ensure_def cacheHit_def newTextLayout_def innerWidth_def newTextControl_def
  exampleControl_def newTextModel_def defaultRun_def layoutParagraph_def bumpLast_def
  wrapLoop.simps wrapStep_def cutText_def cutLoop.simps hyphenTrim.simps lastSpace_def
  isSpace_def unitMeasure_def Let_def

text \<open>
  Claim C4 says that, with hyphenation too, the line texts (with the newlines put
  back) concatenate to the flattened text and that each line's offsets select the
  line's text in it.  With word wrap and hyphenation, five characters to a line, the
  text \<open>abcdefgh\<close> is laid out as \<open>abcd-\<close> from 0 to 5 and \<open>efgh\<close> from 5 to 9: the
  lines concatenate to \<open>abcd-efgh\<close>, and the offsets 5 to 9 select \<open>fgh\<close>.
\<close>

theorem C4_hyphenated_lines_counterexample:
  "ensure unitMeasure ((exampleControl ''abcdefgh'')\<lparr>hyphenate := True\<rparr>) newTextLayout
     = Inr (\<lparr>c_version = 0, c_width = 5,
             c_lines = [\<lparr>l_text = ''abcd-'', l_start = 0, l_end = 5\<rparr>,
                        \<lparr>l_text = ''efgh'', l_start = 5, l_end = 9\<rparr>]\<rparr>,
            newTextLayout\<lparr>cache := Some \<lparr>c_version = 0, c_width = 5,
             c_lines = [\<lparr>l_text = ''abcd-'', l_start = 0, l_end = 5\<rparr>,
                        \<lparr>l_text = ''efgh'', l_start = 5, l_end = 9\<rparr>]\<rparr>\<rparr>)
   \<and> m_text (textModel ((exampleControl ''abcdefgh'')\<lparr>hyphenate := True\<rparr>)) = ''abcdefgh''
   \<and> concat (map lineSource [\<lparr>l_text = ''abcd-'', l_start = 0, l_end = 5\<rparr>,
                               \<lparr>l_text = ''efgh'', l_start = 5, l_end = 9\<rparr>]) = ''abcd-efgh''
   \<and> concat (map lineSource [\<lparr>l_text = ''abcd-'', l_start = 0, l_end = 5\<rparr>,
                               \<lparr>l_text = ''efgh'', l_start = 5, l_end = 9\<rparr>])
       \<noteq> m_text (textModel ((exampleControl ''abcdefgh'')\<lparr>hyphenate := True\<rparr>))
   \<and> slice ''abcdefgh'' 5 9 = ''fgh''
   \<and> lineSource \<lparr>l_text = ''efgh'', l_start = 5, l_end = 9\<rparr> = ''efgh''
   \<and> slice ''abcdefgh'' 5 9 \<noteq> lineSource \<lparr>l_text = ''efgh'', l_start = 5, l_end = 9\<rparr>"
  by (simp add: layout_defs lineSource_def slice_def)

text \<open>
  Claim C4, amended.  For every buffer text and every configuration in which the
  hyphenation branch is not reachable (wrapping off, or a word-wrap mode other than
  \<open>word\<close>, or \<open>hyphenate\<close> off), when \<open>ensure()\<close> computes the layout (no valid cache),
  it returns a line table whose line texts, with one newline put back for each newline
  counted in a line's end offset, concatenate to the flattened text, and for every
  line \<open>text.slice(start, end)\<close> is the line's text followed by that newline, if any.
\<close>

theorem C4_lines_reconstruct_text:
  assumes nh: "\<not> (wrap c \<and> wordWrap c = ''word'' \<and> hyphenate c)"
    and miss: "\<not> cacheHit c l"
  shows "\<exists>ch l'. ensure ms c l = Inr (ch, l')
           \<and> concat (map lineSource (c_lines ch)) = m_text (textModel c)
           \<and> (\<forall>L \<in> set (c_lines ch).
                 slice (m_text (textModel c)) (l_start L) (l_end L) = lineSource L)"
proof -
  let ?T = "m_text (textModel c)"
  from paragraphLoop_match[OF nh linesMatch_Nil splitNewline_nonempty, of ms "max 0 (innerWidth c l)" ?T]
  obtain lines where p: "paragraphLoop ms c (max 0 (innerWidth c l)) (splitNewline ?T) 0 [] = Inr lines"
    and G: "linesMatch lines ?T" by (auto simp: joinNewline_splitNewline)
  from G have "concat (map lineSource lines) = ?T"
    "\<forall>L \<in> set lines. slice ?T (l_start L) (l_end L) = lineSource L"
    by (simp_all add: linesMatch_def)
  then show ?thesis by (simp add: ensure_miss[OF miss] p)
qed

text \<open>The two paragraphs \<open>ab cdef\<close> and \<open>gh\<close>, five characters to a line.\<close>

theorem C4_lines_reconstruct_text_witness:
  "\<not> (wrap (exampleControl ''ab cdef\<newline>gh'') \<and> wordWrap (exampleControl ''ab cdef\<newline>gh'') = ''word''
       \<and> hyphenate (exampleControl ''ab cdef\<newline>gh''))
   \<and> \<not> cacheHit (exampleControl ''ab cdef\<newline>gh'') newTextLayout
   \<and> ensure unitMeasure (exampleControl ''ab cdef\<newline>gh'') newTextLayout
       = Inr (\<lparr>c_version = 0, c_width = 5,
               c_lines = [\<lparr>l_text = ''ab '', l_start = 0, l_end = 3\<rparr>,
                          \<lparr>l_text = ''cdef'', l_start = 3, l_end = 8\<rparr>,
                          \<lparr>l_text = ''gh'', l_start = 8, l_end = 10\<rparr>]\<rparr>,
              newTextLayout\<lparr>cache := Some \<lparr>c_version = 0, c_width = 5,
               c_lines = [\<lparr>l_text = ''ab '', l_start = 0, l_end = 3\<rparr>,
                          \<lparr>l_text = ''cdef'', l_start = 3, l_end = 8\<rparr>,
                          \<lparr>l_text = ''gh'', l_start = 8, l_end = 10\<rparr>]\<rparr>\<rparr>)
   \<and> concat (map lineSource [\<lparr>l_text = ''ab '', l_start = 0, l_end = 3\<rparr>,
                               \<lparr>l_text = ''cdef'', l_start = 3, l_end = 8\<rparr>,
                               \<lparr>l_text = ''gh'', l_start = 8, l_end = 10\<rparr>]) = ''ab cdef\<newline>gh''
   \<and> slice ''ab cdef\<newline>gh'' 3 8 = lineSource \<lparr>l_text = ''cdef'', l_start = 3, l_end = 8\<rparr>"
proof -
  let ?c = "exampleControl ''ab cdef\<newline>gh''"
  let ?ch = "\<lparr>c_version = 0, c_width = 5,
               c_lines = [\<lparr>l_text = ''ab '', l_start = 0, l_end = 3\<rparr>,
                          \<lparr>l_text = ''cdef'', l_start = 3, l_end = 8\<rparr>,
                          \<lparr>l_text = ''gh'', l_start = 8, l_end = 10\<rparr>]\<rparr>"
  have nh: "\<not> (wrap ?c \<and> wordWrap ?c = ''word'' \<and> hyphenate ?c)"
    by (simp add: exampleControl_def newTextControl_def)
  have miss: "\<not> cacheHit ?c newTextLayout" by (simp add: cacheHit_def newTextLayout_def)
  have ev: "ensure unitMeasure ?c newTextLayout = Inr (?ch, newTextLayout\<lparr>cache := Some ?ch\<rparr>)"
    by (simp add: layout_defs)
  have tx: "m_text (textModel ?c) = ''ab cdef\<newline>gh''"
    by (simp add: exampleControl_def newTextModel_def)
  from C4_lines_reconstruct_text[OF nh miss, of unitMeasure] obtain ch l' where
    e: "ensure unitMeasure ?c newTextLayout = Inr (ch, l')"
    and a: "concat (map lineSource (c_lines ch)) = m_text (textModel ?c)"
    and b: "\<forall>L \<in> set (c_lines ch). slice (m_text (textModel ?c)) (l_start L) (l_end L) = lineSource L"
    by blast
  from e ev have ch: "ch = ?ch" by simp
  from b[rule_format, of "\<lparr>l_text = ''cdef'', l_start = 3, l_end = 8\<rparr>"]
  have "slice ''ab cdef\<newline>gh'' 3 8 = lineSource \<lparr>l_text = ''cdef'', l_start = 3, l_end = 8\<rparr>"
    by (simp add: ch tx)
  with a nh miss ev show ?thesis by (simp add: ch tx)
qed

text \<open>
  Claim C5.  When the cache object exists and its version and width equal the
  buffer's version counter and the computed available width, \<open>ensure()\<close> returns that
  object and leaves the layout object as it is, whatever line table the object
  holds.  Otherwise it computes the line table of the current text (without throwing)
  and stores and returns a new cache object with the current version and width.  The
  layout object is unchanged exactly in the first case.  A second call, with any
  measurement and any control state of the same version and available width, returns
  the object the first call returned.
\<close>

theorem C5_ensure_cache:
  "(\<forall>ch. cache l = Some ch \<and> c_version ch = version (textModel c)
          \<and> c_width ch = max 0 (innerWidth c l) \<longrightarrow> ensure ms c l = Inr (ch, l))
   \<and> (\<not> cacheHit c l \<longrightarrow>
        (\<exists>lines. paragraphLoop ms c (max 0 (innerWidth c l))
                    (splitNewline (m_text (textModel c))) 0 [] = Inr lines
           \<and> ensure ms c l =
               Inr (\<lparr>c_version = version (textModel c), c_width = max 0 (innerWidth c l),
                     c_lines = lines\<rparr>,
                    l\<lparr>cache := Some \<lparr>c_version = version (textModel c),
                                      c_width = max 0 (innerWidth c l), c_lines = lines\<rparr>\<rparr>)))
   \<and> (\<forall>ch l'. ensure ms c l = Inr (ch, l') \<longrightarrow>
          (l' = l \<longleftrightarrow> cacheHit c l) \<and> cache l' = Some ch
          \<and> c_version ch = version (textModel c) \<and> c_width ch = max 0 (innerWidth c l))
   \<and> (\<forall>ch l' ms' c'. ensure ms c l = Inr (ch, l')
          \<and> version (textModel c') = version (textModel c)
          \<and> max 0 (innerWidth c' l') = max 0 (innerWidth c l) \<longrightarrow>
          ensure ms' c' l' = Inr (ch, l'))"
proof -
  let ?W = "max 0 (innerWidth c l)" and ?v = "version (textModel c)"
  obtain lines where p: "paragraphLoop ms c ?W (splitNewline (m_text (textModel c))) 0 [] = Inr lines"
    using paragraphLoop_total by blast
  let ?new = "\<lparr>c_version = ?v, c_width = ?W, c_lines = lines\<rparr>"
  have miss: "ensure ms c l = Inr (?new, l\<lparr>cache := Some ?new\<rparr>)" if "\<not> cacheHit c l"
    using that p by (simp add: ensure_miss)
  have hit: "ensure ms c l = Inr (ch, l)"
    if "cache l = Some ch" "c_version ch = ?v" "c_width ch = ?W" for ch
  proof -
    from that have "cacheHit c l" by (simp add: cacheHit_iff)
    from ensure_hit[OF this] that show ?thesis by simp
  qed
  have post: "(l' = l \<longleftrightarrow> cacheHit c l) \<and> cache l' = Some ch \<and> c_version ch = ?v \<and> c_width ch = ?W"
    if e: "ensure ms c l = Inr (ch, l')" for ch l'
  proof (cases "cacheHit c l")
    case True
    then obtain ch0 where c0: "cache l = Some ch0" "c_version ch0 = ?v" "c_width ch0 = ?W"
      by (auto simp: cacheHit_iff)
    from hit[OF c0] e c0 True show ?thesis by simp
  next
    case False
    from miss[OF False] e have r: "ch = ?new" "l' = l\<lparr>cache := Some ?new\<rparr>" by simp_all
    have "l' \<noteq> l"
    proof
      assume "l' = l"
      then have "cache l = Some ?new" using r by (metis TextLayout.select_convs(1) TextLayout.surjective TextLayout.update_convs(1))
      then have "cacheHit c l" by (simp add: cacheHit_iff)
      with False show False by simp
    qed
    with False r show ?thesis by simp
  qed
  have again: "ensure ms' c' l' = Inr (ch, l')"
    if e: "ensure ms c l = Inr (ch, l')" and v: "version (textModel c') = ?v"
      and w: "max 0 (innerWidth c' l') = ?W" for ch l' ms' c'
  proof -
    from post[OF e] have "cache l' = Some ch" "c_version ch = ?v" "c_width ch = ?W" by simp_all
    then have "cacheHit c' l'" using v w by (simp add: cacheHit_iff)
    from ensure_hit[OF this] \<open>cache l' = Some ch\<close> show ?thesis by simp
  qed
  show ?thesis using hit miss p post again by blast
qed

text \<open>
  A first call without cache, a second call on its result, and a call on a cache
  object of the right version and width that holds no line.
\<close>

theorem C5_ensure_cache_witness:
  "\<not> cacheHit (exampleControl ''ab cdefgh'') newTextLayout
   \<and> ensure unitMeasure (exampleControl ''ab cdefgh'') newTextLayout
       = Inr (\<lparr>c_version = 0, c_width = 5,
               c_lines = [\<lparr>l_text = ''ab '', l_start = 0, l_end = 3\<rparr>,
                          \<lparr>l_text = ''cdefg'', l_start = 3, l_end = 8\<rparr>,
                          \<lparr>l_text = ''h'', l_start = 8, l_end = 9\<rparr>]\<rparr>,
              newTextLayout\<lparr>cache := Some \<lparr>c_version = 0, c_width = 5,
               c_lines = [\<lparr>l_text = ''ab '', l_start = 0, l_end = 3\<rparr>,
                          \<lparr>l_text = ''cdefg'', l_start = 3, l_end = 8\<rparr>,
                          \<lparr>l_text = ''h'', l_start = 8, l_end = 9\<rparr>]\<rparr>\<rparr>)
   \<and> ensure unitMeasure (exampleControl ''ab cdefgh'')
         (newTextLayout\<lparr>cache := Some \<lparr>c_version = 0, c_width = 5,
               c_lines = [\<lparr>l_text = ''ab '', l_start = 0, l_end = 3\<rparr>,
                          \<lparr>l_text = ''cdefg'', l_start = 3, l_end = 8\<rparr>,
                          \<lparr>l_text = ''h'', l_start = 8, l_end = 9\<rparr>]\<rparr>\<rparr>)
       = Inr (\<lparr>c_version = 0, c_width = 5,
               c_lines = [\<lparr>l_text = ''ab '', l_start = 0, l_end = 3\<rparr>,
                          \<lparr>l_text = ''cdefg'', l_start = 3, l_end = 8\<rparr>,
                          \<lparr>l_text = ''h'', l_start = 8, l_end = 9\<rparr>]\<rparr>,
              newTextLayout\<lparr>cache := Some \<lparr>c_version = 0, c_width = 5,
               c_lines = [\<lparr>l_text = ''ab '', l_start = 0, l_end = 3\<rparr>,
                          \<lparr>l_text = ''cdefg'', l_start = 3, l_end = 8\<rparr>,
                          \<lparr>l_text = ''h'', l_start = 8, l_end = 9\<rparr>]\<rparr>\<rparr>)
   \<and> ensure unitMeasure (exampleControl ''ab cdefgh'')
         (newTextLayout\<lparr>cache := Some \<lparr>c_version = 0, c_width = 5, c_lines = []\<rparr>\<rparr>)
       = Inr (\<lparr>c_version = 0, c_width = 5, c_lines = []\<rparr>,
              newTextLayout\<lparr>cache := Some \<lparr>c_version = 0, c_width = 5, c_lines = []\<rparr>\<rparr>)"
proof -
  let ?c = "exampleControl ''ab cdefgh''"
  let ?ch = "\<lparr>c_version = 0, c_width = 5,
               c_lines = [\<lparr>l_text = ''ab '', l_start = 0, l_end = 3\<rparr>,
                          \<lparr>l_text = ''cdefg'', l_start = 3, l_end = 8\<rparr>,
                          \<lparr>l_text = ''h'', l_start = 8, l_end = 9\<rparr>]\<rparr>"
  let ?l1 = "newTextLayout\<lparr>cache := Some ?ch\<rparr>"
  let ?stale = "\<lparr>c_version = 0, c_width = 5, c_lines = []\<rparr>"
  have miss: "\<not> cacheHit ?c newTextLayout" by (simp add: cacheHit_def newTextLayout_def)
  have ev: "ensure unitMeasure ?c newTextLayout = Inr (?ch, ?l1)"
    by (simp add: layout_defs)
  have v: "version (textModel ?c) = 0" by (simp add: exampleControl_def newTextModel_def)
  have w: "max 0 (innerWidth ?c ?l1) = 5" "max 0 (innerWidth ?c newTextLayout) = 5"
    "max 0 (innerWidth ?c (newTextLayout\<lparr>cache := Some ?stale\<rparr>)) = 5"
    by (simp_all add: innerWidth_def exampleControl_def newTextControl_def newTextLayout_def)
  note again = C5_ensure_cache[of newTextLayout ?c unitMeasure, THEN conjunct2, THEN conjunct2,
      THEN conjunct2, rule_format, of ?ch ?l1 ?c unitMeasure]
  have second: "ensure unitMeasure ?c ?l1 = Inr (?ch, ?l1)"
    by (rule again) (simp add: ev w)
  note hit = C5_ensure_cache[of "newTextLayout\<lparr>cache := Some ?stale\<rparr>" ?c unitMeasure,
      THEN conjunct1, rule_format, of ?stale]
  have third: "ensure unitMeasure ?c (newTextLayout\<lparr>cache := Some ?stale\<rparr>)
                 = Inr (?stale, newTextLayout\<lparr>cache := Some ?stale\<rparr>)"
    by (rule hit) (simp add: v w)
  from miss ev second third show ?thesis by simp
qed

text \<open>
  Claim C6.  With \<open>wrap\<close> on and \<open>wordWrap = 'word'\<close>, under a measurement in which
  a string fits the (positive) available width exactly when it has at most five
  characters, the layout of the text \<open>ab cdefgh\<close> begins with the line \<open>ab \<close> from 0 to
  3, and the lines after it are the wrapping of the remainder \<open>cdefgh\<close> from offset
  3; without hyphenation these are \<open>cdefg\<close> and \<open>h\<close>.
\<close>

theorem C6_word_wrap_scenario:
  assumes w: "wrap c" and ww: "wordWrap c = ''word''"
    and tx: "m_text (textModel c) = ''ab cdefgh''"
    and miss: "\<not> cacheHit c l"
    and W: "0 < innerWidth c l"
    and fits: "\<forall>s. ms s \<le> innerWidth c l \<longleftrightarrow> length s \<le> 5"
  shows "\<exists>ch l'. ensure ms c l = Inr (ch, l')
           \<and> c_lines ch = \<lparr>l_text = ''ab '', l_start = 0, l_end = 3\<rparr>
                            # fst (wrapLoop ms c (innerWidth c l) ''cdefgh'' 3 [])
           \<and> (\<not> hyphenate c \<longrightarrow>
                c_lines ch = [\<lparr>l_text = ''ab '', l_start = 0, l_end = 3\<rparr>,
                              \<lparr>l_text = ''cdefg'', l_start = 3, l_end = 8\<rparr>,
                              \<lparr>l_text = ''h'', l_start = 8, l_end = 9\<rparr>])"
proof -
  let ?W = "innerWidth c l"
  let ?L1 = "\<lparr>l_text = ''ab '', l_start = 0, l_end = 3\<rparr>"
  have mx: "max 0 ?W = ?W" using W by simp
  have sp: "splitNewline ''ab cdefgh'' = [''ab cdefgh'']" by simp
  have "wrapLoop ms c ?W ''ab cdefgh'' 0 [] = wrapLoop ms c ?W ''cdefgh'' 3 [?L1]"
    using wrapLoop_step[OF scenario_first_step[OF W fits ww], of 3 0 "[]"] by simp
  also have "\<dots> = (?L1 # fst (wrapLoop ms c ?W ''cdefgh'' 3 []), snd (wrapLoop ms c ?W ''cdefgh'' 3 []))"
    using wrapLoop_acc[of ms c ?W "''cdefgh''" 3 "[?L1]"] by simp
  finally have wl: "fst (wrapLoop ms c ?W ''ab cdefgh'' 0 []) = ?L1 # fst (wrapLoop ms c ?W ''cdefgh'' 3 [])"
    by simp
  have pl: "paragraphLoop ms c ?W [''ab cdefgh''] 0 [] = Inr (?L1 # fst (wrapLoop ms c ?W ''cdefgh'' 3 []))"
    using w wl by (simp add: layoutParagraph_def case_prod_beta)
  have nh: "fst (wrapLoop ms c ?W ''cdefgh'' 3 [])
              = [\<lparr>l_text = ''cdefg'', l_start = 3, l_end = 8\<rparr>, \<lparr>l_text = ''h'', l_start = 8, l_end = 9\<rparr>]"
    if "\<not> hyphenate c"
  proof -
    note st = scenario_rest_steps[OF W fits that]
    have "wrapLoop ms c ?W ''cdefgh'' 3 [] = wrapLoop ms c ?W ''h'' 8 [\<lparr>l_text = ''cdefg'', l_start = 3, l_end = 8\<rparr>]"
      using wrapLoop_step[OF st(1), of 8 3 "[]"] by simp
    also have "\<dots> = wrapLoop ms c ?W [] 9 [\<lparr>l_text = ''cdefg'', l_start = 3, l_end = 8\<rparr>, \<lparr>l_text = ''h'', l_start = 8, l_end = 9\<rparr>]"
      using wrapLoop_step[OF st(2), of 9 8 "[\<lparr>l_text = ''cdefg'', l_start = 3, l_end = 8\<rparr>]"] by simp
    finally show ?thesis by (simp add: wrapLoop_done)
  qed
  let ?ch = "\<lparr>c_version = version (textModel c), c_width = ?W,
              c_lines = ?L1 # fst (wrapLoop ms c ?W ''cdefgh'' 3 [])\<rparr>"
  have e: "ensure ms c l = Inr (?ch, l\<lparr>cache := Some ?ch\<rparr>)"
    unfolding ensure_miss[OF miss] tx mx sp pl by simp
  show ?thesis
  proof (intro exI conjI)
    show "ensure ms c l = Inr (?ch, l\<lparr>cache := Some ?ch\<rparr>)" by (rule e)
    show "c_lines ?ch = ?L1 # fst (wrapLoop ms c ?W ''cdefgh'' 3 [])" by simp
    show "\<not> hyphenate c \<longrightarrow>
                c_lines ?ch = [\<lparr>l_text = ''ab '', l_start = 0, l_end = 3\<rparr>,
                              \<lparr>l_text = ''cdefg'', l_start = 3, l_end = 8\<rparr>,
                              \<lparr>l_text = ''h'', l_start = 8, l_end = 9\<rparr>]"
      using nh by simp
  qed
qed

text \<open>The scenario with \<open>unitMeasure\<close> and the inner width 5.\<close>

theorem C6_word_wrap_scenario_witness:
  "wrap (exampleControl ''ab cdefgh'') \<and> wordWrap (exampleControl ''ab cdefgh'') = ''word''
   \<and> m_text (textModel (exampleControl ''ab cdefgh'')) = ''ab cdefgh''
   \<and> \<not> cacheHit (exampleControl ''ab cdefgh'') newTextLayout
   \<and> 0 < innerWidth (exampleControl ''ab cdefgh'') newTextLayout
   \<and> \<not> hyphenate (exampleControl ''ab cdefgh'')
   \<and> (case ensure unitMeasure (exampleControl ''ab cdefgh'') newTextLayout of
         Inl e \<Rightarrow> []
       | Inr (ch, l') \<Rightarrow> c_lines ch)
       = [\<lparr>l_text = ''ab '', l_start = 0, l_end = 3\<rparr>,
          \<lparr>l_text = ''cdefg'', l_start = 3, l_end = 8\<rparr>,
          \<lparr>l_text = ''h'', l_start = 8, l_end = 9\<rparr>]"
proof -
  let ?c = "exampleControl ''ab cdefgh''"
  have w: "wrap ?c" and ww: "wordWrap ?c = ''word''" and nh: "\<not> hyphenate ?c"
    and tx: "m_text (textModel ?c) = ''ab cdefgh''"
    by (simp_all add: exampleControl_def newTextControl_def newTextModel_def)
  have miss: "\<not> cacheHit ?c newTextLayout" by (simp add: cacheHit_def newTextLayout_def)
  have iw: "innerWidth ?c newTextLayout = 5"
    by (simp add: innerWidth_def exampleControl_def newTextControl_def newTextLayout_def)
  have W: "0 < innerWidth ?c newTextLayout" by (simp add: iw)
  have fits: "\<forall>s. unitMeasure s \<le> innerWidth ?c newTextLayout \<longleftrightarrow> length s \<le> 5"
    by (simp add: iw unitMeasure_def)
  from C6_word_wrap_scenario[OF w ww tx miss W fits] nh obtain ch l' where
    "ensure unitMeasure ?c newTextLayout = Inr (ch, l')"
    "c_lines ch = [\<lparr>l_text = ''ab '', l_start = 0, l_end = 3\<rparr>,
                   \<lparr>l_text = ''cdefg'', l_start = 3, l_end = 8\<rparr>,
                   \<lparr>l_text = ''h'', l_start = 8, l_end = 9\<rparr>]"
    by blast
  with w ww tx miss W nh show ?thesis by simp
qed

end
